theory Spec2Isabelle
  imports Main "HOL-Library.Word"
begin

section \<open>Bytes, strings and errors\<close>

text \<open>
  A Python \<open>bytes\<close> or \<open>bytearray\<close> value is a list of 8-bit words; a Python \<open>int\<close>
  is an \<open>int\<close>; a Python \<open>str\<close> is the list of its code points.
\<close>

type_synonym byte = "8 word"
type_synonym bytes = "byte list"
type_synonym str = "nat list"

text \<open>
  The exceptions the codec can raise: \<open>ValueError\<close> (the explicit length check of
  \<open>Hero.from_bytes\<close>, and a \<open>bytearray\<close> item that is not in \<open>range(0, 256)\<close>),
  \<open>struct.error\<close> (a buffer too short for \<open>unpack_from\<close> or \<open>pack_into\<close>, or a value
  out of the range of its format), \<open>UnicodeEncodeError\<close> (a character that latin-1
  cannot encode) and \<open>IndexError\<close> (a \<open>bytearray\<close> index out of range).
\<close>

datatype error = ValueError | StructError | UnicodeEncodeError | IndexError

definition CHR_SIZE :: nat where
  "CHR_SIZE = 1754"

section \<open>The data model\<close>

record CharacterTrait =
  normal :: int
  current :: int
  modifier :: int

record AttackValues =
  att1 :: int
  att2 :: int
  att3 :: int
  att4 :: int
  att5 :: int
  att6 :: int
  att7 :: int

record ParadeValues =
  par1 :: int
  par2 :: int
  par3 :: int
  par4 :: int
  par5 :: int
  par6 :: int
  par7 :: int

record Hero =
  name :: str
  name2 :: str
  slots_used :: int
  typus :: int
  gender :: int
  size_f :: int
  weight :: int
  god :: int
  level :: int
  exp :: int
  money :: int
  rs_bonus1 :: int
  rs_bonus2 :: int
  rs_handycap :: int
  remaining_bp :: int
  courage :: CharacterTrait
  intelligence :: CharacterTrait
  charisma :: CharacterTrait
  dexterity :: CharacterTrait
  agility :: CharacterTrait
  intuition :: CharacterTrait
  strength :: CharacterTrait
  superstition :: CharacterTrait
  vertigo :: CharacterTrait
  claustrophobia :: CharacterTrait
  greed :: CharacterTrait
  necrophobia :: CharacterTrait
  curiosity :: CharacterTrait
  temper :: CharacterTrait
  vital_energy_current :: int
  vital_energy_max :: int
  astral_energy_current :: int
  astral_energy_max :: int
  magic_resistance :: int
  basis_attack_parade :: int
  att_vals :: AttackValues
  par_vals :: ParadeValues
  att_bon_weapon :: int
  par_bon_weapon :: int
  weapon_type :: int
  curr_attack_modifier :: int
  perm_vit_energ_loss :: int
  unknown1 :: int
  unknown2 :: int
  unknown3 :: int
  unknown4 :: int
  hunger :: int
  thirst :: int
  unknown5 :: int
  view_direction :: int
  num_left_actions_per_fight_round :: int
  unknown6 :: int
  unknown7 :: int
  fight_id_last_enemy :: int
  idx_heroes_group :: int
  unknown8 :: int
  unknown9 :: int
  pos_in_heroes_group :: int
  portrait :: bytes
  unknown_tail :: bytes

record SaveGame =
  version_header :: bytes
  chr_offset :: int
  metadata :: bytes
  pre_hero_data :: bytes
  heroes :: "Hero list"

section \<open>Python primitives\<close>

subsection \<open>Slices\<close>

text \<open>
  Python normalises a slice bound against the length \<open>n\<close> of the sequence: a negative
  bound counts from the end, and every bound is clamped into \<open>0..n\<close>.
\<close>

definition slice_index :: "nat \<Rightarrow> int \<Rightarrow> nat" where
  "slice_index n i = (if i < 0 then nat (max 0 (i + int n)) else min n (nat i))"

text \<open>\<open>xs[a:b]\<close>, \<open>xs[a:]\<close> and \<open>xs[:b]\<close>; an empty range gives the empty list.\<close>

definition py_slice :: "'a list \<Rightarrow> int \<Rightarrow> int \<Rightarrow> 'a list" where
  "py_slice xs a b =
     (let s = slice_index (length xs) a; e = slice_index (length xs) b
      in take (e - s) (drop s xs))"

definition py_slice_from :: "'a list \<Rightarrow> int \<Rightarrow> 'a list" where
  "py_slice_from xs a = drop (slice_index (length xs) a) xs"

definition py_slice_to :: "'a list \<Rightarrow> int \<Rightarrow> 'a list" where
  "py_slice_to xs b = take (slice_index (length xs) b) xs"

text \<open>
  The slice assignment \<open>data[a:b] = v\<close> on a \<open>bytearray\<close>: the bytes between the
  normalised bounds are replaced by \<open>v\<close>, whatever its length, so the array shrinks or
  grows when \<open>v\<close> is not as long as the range it replaces.
\<close>

definition set_slice :: "bytes \<Rightarrow> int \<Rightarrow> int \<Rightarrow> bytes \<Rightarrow> bytes" where
  "set_slice data a b v =
     (let s = slice_index (length data) a; e = max s (slice_index (length data) b)
      in take s data @ v @ drop e data)"

subsection \<open>Statements on the output buffer\<close>

text \<open>
  \<open>Hero.to_bytes\<close> is a straight line of statements on one \<open>bytearray\<close>. A statement
  maps the buffer to the updated buffer or raises; \<open>run\<close> executes statements in order
  and stops at the first exception.
\<close>

type_synonym stmt = "bytes \<Rightarrow> error + bytes"

fun run :: "stmt list \<Rightarrow> bytes \<Rightarrow> error + bytes" where
  "run [] data = Inr data"
| "run (f # fs) data = (case f data of Inl e \<Rightarrow> Inl e | Inr data' \<Rightarrow> run fs data')"

text \<open>
  The item assignment \<open>data[i] = v\<close>: \<open>IndexError\<close> outside the array, \<open>ValueError\<close>
  when \<open>v\<close> is not in \<open>range(0, 256)\<close>.
\<close>

definition set_byte :: "nat \<Rightarrow> int \<Rightarrow> stmt" where
  "set_byte i v data =
     (if length data \<le> i then Inl IndexError
      else if 0 \<le> v \<and> v < 256 then Inr (data[i := word_of_int v])
      else Inl ValueError)"

subsection \<open>The struct module, little-endian\<close>

fun le_uint :: "bytes \<Rightarrow> int" where
  "le_uint [] = 0"
| "le_uint (b # bs) = uint b + 256 * le_uint bs"

definition to_signed :: "nat \<Rightarrow> int \<Rightarrow> int" where
  "to_signed bits u = (if 2 ^ (bits - 1) \<le> u then u - 2 ^ bits else u)"

fun le_bytes :: "nat \<Rightarrow> int \<Rightarrow> bytes" where
  "le_bytes 0 v = []"
| "le_bytes (Suc n) v = word_of_int (v mod 256) # le_bytes n (v div 256)"

text \<open>The values \<open>struct.unpack_from('<h', data, off)[0]\<close> and \<open>('<i', ...)\<close> read.\<close>

definition unpack_h :: "bytes \<Rightarrow> nat \<Rightarrow> int" where
  "unpack_h data off = to_signed 16 (le_uint (take 2 (drop off data)))"

definition unpack_i :: "bytes \<Rightarrow> nat \<Rightarrow> int" where
  "unpack_i data off = to_signed 32 (le_uint (take 4 (drop off data)))"

text \<open>\<open>struct.unpack_from\<close> raises \<open>struct.error\<close> when the buffer ends too early.\<close>

definition unpack_from_h :: "bytes \<Rightarrow> nat \<Rightarrow> error + int" where
  "unpack_from_h data off =
     (if length data < off + 2 then Inl StructError else Inr (unpack_h data off))"

definition unpack_from_i :: "bytes \<Rightarrow> nat \<Rightarrow> error + int" where
  "unpack_from_i data off =
     (if length data < off + 4 then Inl StructError else Inr (unpack_i data off))"

text \<open>\<open>struct.pack\<close> raises \<open>struct.error\<close> when the value does not fit the format.\<close>

definition pack_h :: "int \<Rightarrow> error + bytes" where
  "pack_h v = (if - 32768 \<le> v \<and> v \<le> 32767 then Inr (le_bytes 2 v) else Inl StructError)"

definition pack_i :: "int \<Rightarrow> error + bytes" where
  "pack_i v =
     (if - 2147483648 \<le> v \<and> v \<le> 2147483647 then Inr (le_bytes 4 v) else Inl StructError)"

text \<open>\<open>struct.pack_into\<close> overwrites the bytes at \<open>off\<close> in place.\<close>

definition write_at :: "nat \<Rightarrow> bytes \<Rightarrow> bytes \<Rightarrow> bytes" where
  "write_at off bs data = take off data @ bs @ drop (off + length bs) data"

definition pack_into_h :: "nat \<Rightarrow> int \<Rightarrow> stmt" where
  "pack_into_h off v data =
     (if length data < off + 2 then Inl StructError
      else case pack_h v of Inl e \<Rightarrow> Inl e | Inr bs \<Rightarrow> Inr (write_at off bs data))"

definition pack_into_i :: "nat \<Rightarrow> int \<Rightarrow> stmt" where
  "pack_into_i off v data =
     (if length data < off + 4 then Inl StructError
      else case pack_i v of Inl e \<Rightarrow> Inl e | Inr bs \<Rightarrow> Inr (write_at off bs data))"

subsection \<open>Fixed-width names\<close>

text \<open>
  \<open>bs.split(b'\x00')[0]\<close> is the part of \<open>bs\<close> before its first null byte (all of
  \<open>bs\<close> when it has none). latin-1 maps byte \<open>k\<close> to code point \<open>k\<close>; encoding raises
  on a code point above 255. \<open>bs.ljust(n, fill)\<close> pads on the right up to length \<open>n\<close>
  and leaves a longer \<open>bs\<close> as it is.
\<close>

definition split_first :: "bytes \<Rightarrow> bytes" where
  "split_first bs = takeWhile (\<lambda>b. b \<noteq> 0) bs"

definition latin1_decode :: "bytes \<Rightarrow> str" where
  "latin1_decode bs = map unat bs"

definition latin1_encode :: "str \<Rightarrow> error + bytes" where
  "latin1_encode s =
     (if list_all (\<lambda>c. c < 256) s then Inr (map of_nat s) else Inl UnicodeEncodeError)"

definition ljust :: "nat \<Rightarrow> 'a \<Rightarrow> 'a list \<Rightarrow> 'a list" where
  "ljust n fill bs = bs @ replicate (n - length bs) fill"

section \<open>RecordCodec: \<open>Hero.from_bytes\<close>\<close>

text \<open>
  The inner helpers of \<open>from_bytes\<close>. \<open>data[i]\<close> is read as \<open>uint (data ! i)\<close>: every
  index used is below \<open>CHR_SIZE\<close>, and \<open>from_bytes\<close> raises before any read when the
  buffer is shorter than that, so neither \<open>IndexError\<close> nor the \<open>struct.error\<close> of
  \<open>unpack_from\<close> can occur behind the guard (lemma \<open>unpack_from_behind_guard\<close>).
\<close>

definition unpack_trait :: "bytes \<Rightarrow> nat \<Rightarrow> CharacterTrait" where
  "unpack_trait data offset =
     \<lparr>normal = uint (data ! offset),
      current = uint (data ! (offset + 1)),
      modifier = uint (data ! (offset + 2))\<rparr>"

definition unpack_att_par :: "bytes \<Rightarrow> nat \<Rightarrow> int list" where
  "unpack_att_par data offset = map (\<lambda>i. uint (data ! (offset + i))) [0..<7]"

text \<open>\<open>AttackValues(*vs)\<close> and \<open>ParadeValues(*vs)\<close> for a list of seven values.\<close>

definition AttackValues_of :: "int list \<Rightarrow> AttackValues" where
  "AttackValues_of vs =
     \<lparr>att1 = vs ! 0, att2 = vs ! 1, att3 = vs ! 2, att4 = vs ! 3,
      att5 = vs ! 4, att6 = vs ! 5, att7 = vs ! 6\<rparr>"

definition ParadeValues_of :: "int list \<Rightarrow> ParadeValues" where
  "ParadeValues_of vs =
     \<lparr>par1 = vs ! 0, par2 = vs ! 1, par3 = vs ! 2, par4 = vs ! 3,
      par5 = vs ! 4, par6 = vs ! 5, par7 = vs ! 6\<rparr>"

definition from_bytes :: "bytes \<Rightarrow> error + Hero" where
  "from_bytes data =
     (if length data < CHR_SIZE then Inl ValueError
      else Inr
       \<lparr>name = latin1_decode (split_first (py_slice data 0 16)),
        name2 = latin1_decode (split_first (py_slice data 16 32)),
        slots_used = uint (data ! 32),
        typus = uint (data ! 33),
        gender = uint (data ! 34),
        size_f = unpack_h data 35,
        weight = uint (data ! 37),
        god = uint (data ! 38),
        level = uint (data ! 39),
        exp = unpack_i data 40,
        money = unpack_i data 44,
        rs_bonus1 = uint (data ! 48),
        rs_bonus2 = uint (data ! 49),
        rs_handycap = uint (data ! 50),
        remaining_bp = uint (data ! 51),
        courage = unpack_trait data 52,
        intelligence = unpack_trait data 55,
        charisma = unpack_trait data 58,
        dexterity = unpack_trait data 61,
        agility = unpack_trait data 64,
        intuition = unpack_trait data 67,
        strength = unpack_trait data 70,
        superstition = unpack_trait data 73,
        vertigo = unpack_trait data 76,
        claustrophobia = unpack_trait data 79,
        greed = unpack_trait data 82,
        necrophobia = unpack_trait data 85,
        curiosity = unpack_trait data 88,
        temper = unpack_trait data 91,
        vital_energy_current = unpack_h data 94,
        vital_energy_max = unpack_h data 96,
        astral_energy_current = unpack_h data 98,
        astral_energy_max = unpack_h data 100,
        magic_resistance = uint (data ! 102),
        basis_attack_parade = uint (data ! 103),
        att_vals = AttackValues_of (unpack_att_par data 104),
        par_vals = ParadeValues_of (unpack_att_par data 111),
        att_bon_weapon = uint (data ! 118),
        par_bon_weapon = uint (data ! 119),
        weapon_type = uint (data ! 120),
        curr_attack_modifier = uint (data ! 121),
        perm_vit_energ_loss = uint (data ! 122),
        unknown1 = uint (data ! 123),
        unknown2 = uint (data ! 124),
        unknown3 = uint (data ! 125),
        unknown4 = uint (data ! 126),
        hunger = uint (data ! 127),
        thirst = uint (data ! 128),
        unknown5 = uint (data ! 129),
        view_direction = uint (data ! 130),
        num_left_actions_per_fight_round = uint (data ! 131),
        unknown6 = uint (data ! 132),
        unknown7 = uint (data ! 133),
        fight_id_last_enemy = uint (data ! 134),
        idx_heroes_group = uint (data ! 135),
        unknown8 = uint (data ! 136),
        unknown9 = uint (data ! 137),
        pos_in_heroes_group = uint (data ! 138),
        portrait = py_slice data 139 (139 + 1024),
        unknown_tail = py_slice_from data (139 + 1024)\<rparr>)"

section \<open>RecordCodec: \<open>Hero.to_bytes\<close>\<close>

text \<open>
  \<open>data[off:off+16] = s.encode('latin-1').ljust(16, b'\x00')\<close>: there is no check of
  the encoded length, so a name longer than 16 bytes makes the slice assignment grow
  the buffer.
\<close>

definition set_name :: "nat \<Rightarrow> str \<Rightarrow> stmt" where
  "set_name off s data =
     (case latin1_encode s of
        Inl e \<Rightarrow> Inl e
      | Inr bs \<Rightarrow> Inr (set_slice data (int off) (int off + 16) (ljust 16 0 bs)))"

definition pack_trait :: "nat \<Rightarrow> CharacterTrait \<Rightarrow> stmt list" where
  "pack_trait offset trait =
     [set_byte offset (normal trait),
      set_byte (offset + 1) (current trait),
      set_byte (offset + 2) (modifier trait)]"

text \<open>The portrait is written only when it has 1024 bytes; otherwise the statement is skipped.\<close>

definition set_portrait :: "bytes \<Rightarrow> stmt" where
  "set_portrait p data =
     (if length p = 1024 then Inr (set_slice data 139 (139 + 1024) p) else Inr data)"

definition set_tail :: "bytes \<Rightarrow> stmt" where
  "set_tail t data =
     (let tail_start = 139 + 1024
      in Inr (set_slice data tail_start (tail_start + int (length t)) t))"

text \<open>The statements of \<open>to_bytes\<close>, in source order, grouped as its comments group them.\<close>

definition pack_names :: "Hero \<Rightarrow> stmt list" where
  "pack_names h = [set_name 0 (name h), set_name 16 (name2 h)]"

definition pack_head :: "Hero \<Rightarrow> stmt list" where
  "pack_head h =
     [set_byte 32 (slots_used h),
      set_byte 33 (typus h),
      set_byte 34 (gender h),
      pack_into_h 35 (size_f h),
      set_byte 37 (weight h),
      set_byte 38 (god h),
      set_byte 39 (level h),
      pack_into_i 40 (exp h),
      pack_into_i 44 (money h),
      set_byte 48 (rs_bonus1 h),
      set_byte 49 (rs_bonus2 h),
      set_byte 50 (rs_handycap h),
      set_byte 51 (remaining_bp h)]"

definition pack_traits :: "Hero \<Rightarrow> stmt list" where
  "pack_traits h =
     pack_trait 52 (courage h) @
     pack_trait 55 (intelligence h) @
     pack_trait 58 (charisma h) @
     pack_trait 61 (dexterity h) @
     pack_trait 64 (agility h) @
     pack_trait 67 (intuition h) @
     pack_trait 70 (strength h) @
     pack_trait 73 (superstition h) @
     pack_trait 76 (vertigo h) @
     pack_trait 79 (claustrophobia h) @
     pack_trait 82 (greed h) @
     pack_trait 85 (necrophobia h) @
     pack_trait 88 (curiosity h) @
     pack_trait 91 (temper h)"

definition pack_energy :: "Hero \<Rightarrow> stmt list" where
  "pack_energy h =
     [pack_into_h 94 (vital_energy_current h),
      pack_into_h 96 (vital_energy_max h),
      pack_into_h 98 (astral_energy_current h),
      pack_into_h 100 (astral_energy_max h),
      set_byte 102 (magic_resistance h),
      set_byte 103 (basis_attack_parade h)]"

definition pack_att_par :: "Hero \<Rightarrow> stmt list" where
  "pack_att_par h =
     [set_byte 104 (att1 (att_vals h)),
      set_byte 105 (att2 (att_vals h)),
      set_byte 106 (att3 (att_vals h)),
      set_byte 107 (att4 (att_vals h)),
      set_byte 108 (att5 (att_vals h)),
      set_byte 109 (att6 (att_vals h)),
      set_byte 110 (att7 (att_vals h)),
      set_byte 111 (par1 (par_vals h)),
      set_byte 112 (par2 (par_vals h)),
      set_byte 113 (par3 (par_vals h)),
      set_byte 114 (par4 (par_vals h)),
      set_byte 115 (par5 (par_vals h)),
      set_byte 116 (par6 (par_vals h)),
      set_byte 117 (par7 (par_vals h))]"

definition pack_remaining :: "Hero \<Rightarrow> stmt list" where
  "pack_remaining h =
     [set_byte 118 (att_bon_weapon h),
      set_byte 119 (par_bon_weapon h),
      set_byte 120 (weapon_type h),
      set_byte 121 (curr_attack_modifier h),
      set_byte 122 (perm_vit_energ_loss h),
      set_byte 123 (unknown1 h),
      set_byte 124 (unknown2 h),
      set_byte 125 (unknown3 h),
      set_byte 126 (unknown4 h),
      set_byte 127 (hunger h),
      set_byte 128 (thirst h),
      set_byte 129 (unknown5 h),
      set_byte 130 (view_direction h),
      set_byte 131 (num_left_actions_per_fight_round h),
      set_byte 132 (unknown6 h),
      set_byte 133 (unknown7 h),
      set_byte 134 (fight_id_last_enemy h),
      set_byte 135 (idx_heroes_group h),
      set_byte 136 (unknown8 h),
      set_byte 137 (unknown9 h),
      set_byte 138 (pos_in_heroes_group h)]"

definition pack_scalars :: "Hero \<Rightarrow> stmt list" where
  "pack_scalars h =
     pack_head h @ pack_traits h @ pack_energy h @ pack_att_par h @ pack_remaining h"

definition pack_blobs :: "Hero \<Rightarrow> stmt list" where
  "pack_blobs h = [set_portrait (portrait h), set_tail (unknown_tail h)]"

definition to_bytes :: "Hero \<Rightarrow> error + bytes" where
  "to_bytes h =
     run (pack_names h @ pack_scalars h @ pack_blobs h) (replicate CHR_SIZE 0)"

section \<open>ContainerCodec: \<open>SaveGame.from_file\<close> and \<open>SaveGame.save_to_file\<close>\<close>

text \<open>
  Both functions are modelled on the contents of the file: \<open>from_file\<close> takes the bytes
  that \<open>f.read()\<close> returns, \<open>save_to_file\<close> returns the bytes that \<open>f.write\<close> writes.
\<close>

definition py_range :: "int \<Rightarrow> nat list" where
  "py_range n = [0..<nat n]"

text \<open>The loop of \<open>from_file\<close>; \<open>hs\<close> is the list \<open>heroes\<close> built so far.\<close>

fun read_heroes :: "bytes \<Rightarrow> int \<Rightarrow> nat list \<Rightarrow> Hero list \<Rightarrow> error + Hero list" where
  "read_heroes data chr_off [] hs = Inr hs"
| "read_heroes data chr_off (i # is) hs =
     (let start = chr_off + int i * int CHR_SIZE;
          stop = start + int CHR_SIZE;
          hero_data = py_slice data start stop
      in case from_bytes hero_data of
           Inl e \<Rightarrow> Inl e
         | Inr h \<Rightarrow> read_heroes data chr_off is (hs @ [h]))"

definition from_file :: "bytes \<Rightarrow> error + SaveGame" where
  "from_file data =
     (let vh = py_slice_to data 16
      in case unpack_from_i data 16 of
           Inl e \<Rightarrow> Inl e
         | Inr chr_off \<Rightarrow>
             (let md = py_slice data 20 30;
                  pre = py_slice data 20 chr_off;
                  file_size = int (length data);
                  num_heroes = (file_size - chr_off) div int CHR_SIZE
              in case read_heroes data chr_off (py_range num_heroes) [] of
                   Inl e \<Rightarrow> Inl e
                 | Inr hs \<Rightarrow>
                     Inr \<lparr>version_header = vh, chr_offset = chr_off, metadata = md,
                          pre_hero_data = pre, heroes = hs\<rparr>))"

text \<open>The loop of \<open>save_to_file\<close>; \<open>file_data\<close> is the output built so far.\<close>

fun write_heroes :: "Hero list \<Rightarrow> bytes \<Rightarrow> error + bytes" where
  "write_heroes [] file_data = Inr file_data"
| "write_heroes (hero # hs) file_data =
     (case to_bytes hero of
        Inl e \<Rightarrow> Inl e
      | Inr bs \<Rightarrow> write_heroes hs (file_data @ bs))"

definition save_to_file :: "SaveGame \<Rightarrow> error + bytes" where
  "save_to_file sg =
     (case pack_i (chr_offset sg) of
        Inl e \<Rightarrow> Inl e
      | Inr co \<Rightarrow> write_heroes (heroes sg) (version_header sg @ co @ pre_hero_data sg))"

section \<open>Derived notions used to state the properties\<close>

text \<open>
  \<open>blit B a b d\<close> is the buffer \<open>d\<close> with its bytes \<open>a..b-1\<close> replaced by those of
  \<open>B\<close>: the state of the output buffer while \<open>to_bytes\<close> writes back, in ascending
  order of offsets, the scalars that \<open>from_bytes\<close> read from \<open>B\<close>.
\<close>

definition blit :: "bytes \<Rightarrow> nat \<Rightarrow> nat \<Rightarrow> bytes \<Rightarrow> bytes" where
  "blit B a b d = take a d @ take (b - a) (drop a B) @ drop b d"

text \<open>
  What a decode and re-encode does to a 16-byte name field: the bytes after the first
  null byte are replaced by null bytes. \<open>normalise_names\<close> does that to both name
  fields of a record and keeps every other byte; \<open>null_padded\<close> says that a field
  has only null bytes after its first null byte.
\<close>

definition pad_name :: "bytes \<Rightarrow> bytes" where
  "pad_name field = ljust 16 0 (split_first field)"

definition normalise_names :: "bytes \<Rightarrow> bytes" where
  "normalise_names B = pad_name (take 16 B) @ pad_name (take 16 (drop 16 B)) @ drop 32 B"

definition null_padded :: "bytes \<Rightarrow> bool" where
  "null_padded field = list_all (\<lambda>b. b = 0) (dropWhile (\<lambda>b. b \<noteq> 0) field)"

text \<open>
  The output of \<open>to_bytes\<close> for a hero decoded from \<open>B\<close> whose names were then set to
  strings that encode to \<open>nb\<close> and \<open>nb2\<close>, whose portrait was set to \<open>p\<close> and whose
  unknown tail was set to \<open>t\<close>: \<open>d1\<close> and \<open>d2\<close> are the buffer after the two name
  assignments, \<open>d3\<close> after the scalars, \<open>d4\<close> after the portrait.
\<close>

definition edited_buffer :: "bytes \<Rightarrow> bytes \<Rightarrow> bytes \<Rightarrow> bytes \<Rightarrow> bytes \<Rightarrow> bytes" where
  "edited_buffer B nb nb2 p t =
     (let d1 = ljust 16 0 nb @ replicate 1738 0;
          d2 = take 16 d1 @ ljust 16 0 nb2 @ drop 32 d1;
          d3 = blit B 32 139 d2;
          d4 = (if length p = 1024 then write_at 139 p d3 else d3)
      in take 1163 d4 @ t @ drop (1163 + length t) d4)"

text \<open>\<open>RecordCodec.encode(RecordCodec.decode(B))\<close>.\<close>

definition recode :: "bytes \<Rightarrow> error + bytes" where
  "recode B = (case from_bytes B of Inl e \<Rightarrow> Inl e | Inr h \<Rightarrow> to_bytes h)"

text \<open>
  Concrete inputs: the all-zero record and the hero decoded from it, and a record whose
  first name field holds a non-null byte after its terminating null byte.
\<close>

definition zero_record :: bytes where
  "zero_record = replicate CHR_SIZE 0"

definition zero_hero :: Hero where
  "zero_hero = projr (from_bytes zero_record)"

definition stale_name_record :: bytes where
  "stale_name_record = 0 # 1 # replicate 1752 0"

text \<open>
  Decode a record, set the \<open>exp\<close> field of the hero, and encode the hero again.
\<close>

definition edit_exp :: "bytes \<Rightarrow> int \<Rightarrow> error + bytes" where
  "edit_exp B e = (case from_bytes B of Inl err \<Rightarrow> Inl err | Inr h \<Rightarrow> to_bytes (h\<lparr>exp := e\<rparr>))"

text \<open>
  A name of 17 letters \<open>A\<close>, one more than the name field holds.
\<close>

definition long_name :: str where
  "long_name = replicate 17 65"

text \<open>
  The slice \<open>data[start:end]\<close> that the loop of \<open>from_file\<close> passes to
  \<open>from_bytes\<close> in round \<open>i\<close>.
\<close>

definition window :: "bytes \<Rightarrow> int \<Rightarrow> nat \<Rightarrow> bytes" where
  "window data chr_off i =
     py_slice data (chr_off + int i * int CHR_SIZE) (chr_off + int i * int CHR_SIZE + int CHR_SIZE)"

text \<open>
  Concrete files: a 16-byte header of null bytes, the four bytes of \<open>chr_offset\<close>
  (0, 100, -1734, 20 and 30), and what follows. \<open>hero_file\<close> holds ten bytes of
  pre-hero data, the all-zero record and three trailing bytes; \<open>hero_file_game\<close> is
  the save game it decodes to.
\<close>

definition zero_offset_file :: bytes where
  "zero_offset_file = replicate 20 0"

definition far_offset_file :: bytes where
  "far_offset_file = replicate 16 0 @ [100, 0, 0, 0]"

definition negative_offset_file :: bytes where
  "negative_offset_file = replicate 16 0 @ [58, 249, 255, 255]"

definition remainder_file :: bytes where
  "remainder_file = replicate 16 0 @ [20, 0, 0, 0] @ [1, 2, 3, 4, 5]"

definition hero_file :: bytes where
  "hero_file = replicate 16 0 @ [30, 0, 0, 0] @ replicate 10 7 @ zero_record @ [9, 9, 9]"

definition hero_file_game :: SaveGame where
  "hero_file_game =
     \<lparr>version_header = replicate 16 0, chr_offset = 30, metadata = replicate 10 7,
      pre_hero_data = replicate 10 7, heroes = [zero_hero]\<rparr>"

section \<open>Properties of the primitives and of the two codecs\<close>

subsection \<open>Slices and little-endian integers\<close>

text \<open>
  Behind the length guard of \<open>from_bytes\<close> the checked \<open>unpack_from\<close> returns the
  value that the model reads directly.
\<close>

lemma unpack_from_behind_guard:
  assumes "CHR_SIZE \<le> length data" "off + 4 \<le> CHR_SIZE"
  shows "unpack_from_h data off = Inr (unpack_h data off)"
    and "unpack_from_i data off = Inr (unpack_i data off)"
  using assms by (simp_all add: unpack_from_h_def unpack_from_i_def)

lemma uint_byte_lt: "uint (b :: byte) < 256"
  using uint_lt2p [of b] by simp

lemma slice_index_nat [simp]: "slice_index n (int k) = min n k"
  by (simp add: slice_index_def)

lemma slice_index_numeral [simp]: "slice_index n (numeral k) = min n (numeral k)"
  by (simp add: slice_index_def)

lemma slice_index_0 [simp]: "slice_index n 0 = 0"
  by (simp add: slice_index_def)

lemma py_slice_nat: "py_slice xs (int a) (int b) = take (b - a) (drop a xs)"
  by (cases "a \<le> length xs") (simp_all add: py_slice_def Let_def min_def)

lemma set_slice_nat: "set_slice data (int a) (int b) v = take a data @ v @ drop (max a b) data"
  by (simp add: set_slice_def Let_def min_def max_def)

lemma le_bytes_shift: "le_bytes n (v + k * 256 ^ n) = le_bytes n v"
proof (induction n arbitrary: v k)
  case 0
  show ?case by simp
next
  case (Suc n)
  have a: "(v + k * 256 ^ Suc n) mod 256 = v mod 256"
    by (simp add: mod_add_eq [symmetric] ) 
  have b: "(v + k * 256 ^ Suc n) div 256 = v div 256 + k * 256 ^ n"
    by simp
  show ?case using Suc.IH [of "v div 256" k] by (simp only: le_bytes.simps a b)
qed

lemma uint_byte_mod [simp]: "uint (b :: byte) mod 256 = uint b"
  using uint_byte_lt [of b] by simp

lemma le_bytes_le_uint: "le_bytes (length bs) (le_uint bs) = bs"
proof (induction bs)
  case Nil
  show ?case by simp
next
  case (Cons b bs)
  have lt: "uint b < 256" by (rule uint_byte_lt)
  have c: "(uint b + 256 * le_uint bs) div 256 = le_uint bs"
    using lt by simp
  show ?case using Cons.IH by (simp add: c)
qed

lemma le_uint_bounds: "0 \<le> le_uint bs \<and> le_uint bs < 256 ^ length bs"
proof (induction bs)
  case Nil
  show ?case by simp
next
  case (Cons b bs)
  have "uint b < 256" by (rule uint_byte_lt)
  moreover have "0 \<le> uint b" by simp
  moreover have "le_uint bs + 1 \<le> 256 ^ length bs" using Cons.IH by simp
  ultimately show ?case using Cons.IH by simp
qed

lemma le_bytes_signed16:
  assumes "length bs = 2"
  shows "le_bytes 2 (to_signed 16 (le_uint bs)) = bs"
proof -
  have "le_bytes 2 (le_uint bs - 65536) = le_bytes 2 (le_uint bs + (- 1) * 256 ^ 2)"
    by simp
  also have "\<dots> = le_bytes 2 (le_uint bs)" by (rule le_bytes_shift)
  finally show ?thesis using le_bytes_le_uint [of bs] assms by (simp add: to_signed_def)
qed

lemma le_bytes_signed32:
  assumes "length bs = 4"
  shows "le_bytes 4 (to_signed 32 (le_uint bs)) = bs"
proof -
  have "le_bytes 4 (le_uint bs - 4294967296) = le_bytes 4 (le_uint bs + (- 1) * 256 ^ 4)"
    by simp
  also have "\<dots> = le_bytes 4 (le_uint bs)" by (rule le_bytes_shift)
  finally show ?thesis using le_bytes_le_uint [of bs] assms by (simp add: to_signed_def)
qed

lemma signed16_range:
  assumes "length bs = 2"
  shows "- 32768 \<le> to_signed 16 (le_uint bs) \<and> to_signed 16 (le_uint bs) \<le> 32767"
  using le_uint_bounds [of bs] assms by (auto simp: to_signed_def)

lemma signed32_range:
  assumes "length bs = 4"
  shows "- 2147483648 \<le> to_signed 32 (le_uint bs) \<and> to_signed 32 (le_uint bs) \<le> 2147483647"
  using le_uint_bounds [of bs] assms by (auto simp: to_signed_def)

lemma pack_h_unpack_h:
  "off + 2 \<le> length B \<Longrightarrow> pack_h (unpack_h B off) = Inr (take 2 (drop off B))"
  using signed16_range [of "take 2 (drop off B)"] le_bytes_signed16 [of "take 2 (drop off B)"]
  by (simp add: pack_h_def unpack_h_def)

lemma pack_i_unpack_i:
  "off + 4 \<le> length B \<Longrightarrow> pack_i (unpack_i B off) = Inr (take 4 (drop off B))"
  using signed32_range [of "take 4 (drop off B)"] le_bytes_signed32 [of "take 4 (drop off B)"]
  by (simp add: pack_i_def unpack_i_def)

subsection \<open>Writing back the scalars of a decoded hero\<close>

lemma blit_start: "blit B a a d = d"
  by (simp add: blit_def)

lemma length_blit [simp]:
  "a \<le> b \<Longrightarrow> b \<le> length d \<Longrightarrow> b \<le> length B \<Longrightarrow> length (blit B a b d) = length d"
  by (simp add: blit_def)

lemma blit_write:
  assumes "a \<le> k" "k + n \<le> length d" "k + n \<le> length B"
  shows "write_at k (take n (drop k B)) (blit B a k d) = blit B a (k + n) d"
proof -
  have 1: "take k (blit B a k d) = take a d @ take (k - a) (drop a B)"
    using assms by (simp add: blit_def)
  have 2: "drop (k + n) (blit B a k d) = drop (k + n) d"
    using assms by (simp add: blit_def add.commute)
  have 3: "take (k - a) (drop a B) @ take n (drop k B) = take (k + n - a) (drop a B)"
  proof -
    have "take (k + n - a) (drop a B) = take ((k - a) + n) (drop a B)"
      using assms by simp
    also have "\<dots> = take (k - a) (drop a B) @ take n (drop (k - a) (drop a B))"
      by (simp only: take_add)
    finally show ?thesis using assms by simp
  qed
  have len: "length (take n (drop k B)) = n" using assms by simp
  show ?thesis
    unfolding write_at_def len 1 2 by (simp add: blit_def 3)
qed

lemma blit_set_byte:
  assumes "a \<le> k" "k < length d" "k < length B"
  shows "set_byte k (uint (B ! k)) (blit B a k d) = Inr (blit B a (Suc k) d)"
proof -
  have w: "write_at k (take 1 (drop k B)) (blit B a k d) = blit B a (k + 1) d"
    using assms by (intro blit_write) simp_all
  have t: "take (Suc 0) (drop k B) = [B ! k]"
    using assms by (simp add: take_Suc_conv_app_nth)
  have u: "(blit B a k d)[k := B ! k] = write_at k [B ! k] (blit B a k d)"
    using assms by (simp add: write_at_def upd_conv_take_nth_drop)
  show ?thesis using assms w uint_byte_lt [of "B ! k"]
    by (simp add: set_byte_def t u)
qed

lemma blit_pack_into_h:
  assumes "a \<le> k" "k + 2 \<le> length d" "k + 2 \<le> length B"
  shows "pack_into_h k (unpack_h B k) (blit B a k d) = Inr (blit B a (k + 2) d)"
  using assms blit_write [of a k 2 d B] by (simp add: pack_into_h_def pack_h_unpack_h)

lemma blit_pack_into_i:
  assumes "a \<le> k" "k + 4 \<le> length d" "k + 4 \<le> length B"
  shows "pack_into_i k (unpack_i B k) (blit B a k d) = Inr (blit B a (k + 4) d)"
  using assms blit_write [of a k 4 d B] by (simp add: pack_into_i_def pack_i_unpack_i)

lemma run_append:
  "run (fs @ gs) d = (case run fs d of Inl e \<Rightarrow> Inl e | Inr d' \<Rightarrow> run gs d')"
  by (induction fs arbitrary: d) (simp_all split: sum.splits)

lemma pack_head_decoded:
  assumes "from_bytes B = Inr h" "139 \<le> length d"
  shows "run (pack_head h) (blit B 32 32 d) = Inr (blit B 32 52 d)"
proof -
  have len: "1754 \<le> length B" using assms by (simp add: from_bytes_def CHR_SIZE_def split: if_splits)
  show ?thesis using assms len
    by (auto simp: from_bytes_def CHR_SIZE_def pack_head_def blit_set_byte blit_pack_into_h blit_pack_into_i split: if_splits)
qed

lemma from_bytes_length: "from_bytes B = Inr h \<Longrightarrow> 1754 \<le> length B"
  by (simp add: from_bytes_def CHR_SIZE_def split: if_splits)

lemma pack_trait_decoded:
  assumes "32 \<le> k" "k + 3 \<le> length d" "k + 3 \<le> length B"
  shows "run (pack_trait k (unpack_trait B k)) (blit B 32 k d) = Inr (blit B 32 (k + 3) d)"
proof -
  have e: "Suc (Suc (Suc k)) = k + 3" by simp
  show ?thesis using assms
    by (simp add: pack_trait_def unpack_trait_def blit_set_byte e)
qed

lemma pack_traits_decoded:
  assumes "from_bytes B = Inr h" "139 \<le> length d"
  shows "run (pack_traits h) (blit B 32 52 d) = Inr (blit B 32 94 d)"
proof -
  have len: "1754 \<le> length B" using assms(1) by (rule from_bytes_length)
  show ?thesis using assms len pack_trait_decoded [of _ d B]
    by (auto simp: from_bytes_def CHR_SIZE_def pack_traits_def run_append split: if_splits)
qed

lemma pack_energy_decoded:
  assumes "from_bytes B = Inr h" "139 \<le> length d"
  shows "run (pack_energy h) (blit B 32 94 d) = Inr (blit B 32 104 d)"
proof -
  have len: "1754 \<le> length B" using assms(1) by (rule from_bytes_length)
  show ?thesis using assms len
    by (auto simp: from_bytes_def CHR_SIZE_def pack_energy_def blit_set_byte blit_pack_into_h split: if_splits)
qed

lemma pack_att_par_decoded:
  assumes "from_bytes B = Inr h" "139 \<le> length d"
  shows "run (pack_att_par h) (blit B 32 104 d) = Inr (blit B 32 118 d)"
proof -
  have len: "1754 \<le> length B" using assms(1) by (rule from_bytes_length)
  show ?thesis using assms len
    by (auto simp: from_bytes_def CHR_SIZE_def pack_att_par_def blit_set_byte
        unpack_att_par_def AttackValues_of_def ParadeValues_of_def split: if_splits)
qed

lemma pack_remaining_decoded:
  assumes "from_bytes B = Inr h" "139 \<le> length d"
  shows "run (pack_remaining h) (blit B 32 118 d) = Inr (blit B 32 139 d)"
proof -
  have len: "1754 \<le> length B" using assms(1) by (rule from_bytes_length)
  show ?thesis using assms len
    by (auto simp: from_bytes_def CHR_SIZE_def pack_remaining_def blit_set_byte split: if_splits)
qed

lemma pack_scalars_decoded:
  assumes "from_bytes B = Inr h" "139 \<le> length d"
  shows "run (pack_scalars h) d = Inr (blit B 32 139 d)"
proof -
  have "run (pack_scalars h) (blit B 32 32 d) = Inr (blit B 32 139 d)"
    unfolding pack_scalars_def
    by (simp add: run_append pack_head_decoded [OF assms] pack_traits_decoded [OF assms]
        pack_energy_decoded [OF assms] pack_att_par_decoded [OF assms]
        pack_remaining_decoded [OF assms])
  then show ?thesis by (simp add: blit_start)
qed

subsection \<open>Names, portrait and unknown tail\<close>

lemma length_split_first: "length (split_first bs) \<le> length bs"
  by (simp add: split_first_def length_takeWhile_le)

lemma length_pad_name: "length field = 16 \<Longrightarrow> length (pad_name field) = 16"
  using length_split_first [of field] by (simp add: pad_name_def ljust_def)

lemma unat_byte_lt: "unat (b :: byte) < 256"
  using unsigned_less [of b, where ?'a = nat] by simp

lemma latin1_encode_decode: "latin1_encode (latin1_decode bs) = Inr bs"
proof -
  have "list_all (\<lambda>c. c < 256) (map unat bs)"
    by (induction bs) (simp_all add: unat_byte_lt)
  moreover have "map of_nat (map unat bs) = bs"
    by (induction bs) simp_all
  ultimately show ?thesis by (simp add: latin1_encode_def latin1_decode_def)
qed

lemma set_name_eq:
  "latin1_encode s = Inr bs \<Longrightarrow>
   set_name off s d = Inr (take off d @ ljust 16 0 bs @ drop (off + 16) d)"
  using set_slice_nat [of d off "off + 16" "ljust 16 0 bs"]
  by (simp add: set_name_def)

lemma set_tail_eq: "set_tail t d = Inr (take 1163 d @ t @ drop (1163 + length t) d)"
  using set_slice_nat [of d 1163 "1163 + length t" t]
  by (simp add: set_tail_def Let_def)

lemma set_portrait_eq:
  "length p = 1024 \<Longrightarrow> set_portrait p d = Inr (write_at 139 p d)"
  using set_slice_nat [of d 139 1163 p]
  by (simp add: set_portrait_def write_at_def)

lemma from_bytes_blobs:
  assumes "from_bytes B = Inr h"
  shows "name h = latin1_decode (split_first (take 16 B))"
    and "name2 h = latin1_decode (split_first (take 16 (drop 16 B)))"
    and "portrait h = take 1024 (drop 139 B)"
    and "unknown_tail h = drop 1163 B"
proof -
  have len: "1754 \<le> length B" using assms by (rule from_bytes_length)
  have h: "h = projr (from_bytes B)" using assms by simp
  have a: "py_slice B 0 16 = take 16 B" using py_slice_nat [of B 0 16] by simp
  have b: "py_slice B 16 32 = take 16 (drop 16 B)" using py_slice_nat [of B 16 32] by simp
  have c: "py_slice B 139 1163 = take 1024 (drop 139 B)" using py_slice_nat [of B 139 1163] by simp
  have d: "py_slice_from B 1163 = drop 1163 B" using len by (simp add: py_slice_from_def)
  show "name h = latin1_decode (split_first (take 16 B))"
    using len by (simp add: h from_bytes_def CHR_SIZE_def a)
  show "name2 h = latin1_decode (split_first (take 16 (drop 16 B)))"
    using len by (simp add: h from_bytes_def CHR_SIZE_def b)
  show "portrait h = take 1024 (drop 139 B)"
    using len by (simp add: h from_bytes_def CHR_SIZE_def c)
  show "unknown_tail h = drop 1163 B"
    using len by (simp add: h from_bytes_def CHR_SIZE_def d)
qed

lemma pack_scalars_update [simp]:
  "pack_scalars (h\<lparr>name := s\<rparr>) = pack_scalars h"
  "pack_scalars (h\<lparr>name2 := s\<rparr>) = pack_scalars h"
  "pack_scalars (h\<lparr>portrait := p\<rparr>) = pack_scalars h"
  "pack_scalars (h\<lparr>unknown_tail := t\<rparr>) = pack_scalars h"
  by (simp_all add: pack_scalars_def pack_head_def pack_traits_def pack_energy_def
      pack_att_par_def pack_remaining_def)

lemma to_bytes_edited:
  assumes dec: "from_bytes B = Inr h"
    and e1: "latin1_encode s = Inr nb"
    and e2: "latin1_encode s2 = Inr nb2"
  shows "to_bytes (h\<lparr>name := s, name2 := s2, portrait := p, unknown_tail := t\<rparr>) =
         Inr (edited_buffer B nb nb2 p t)"
proof -
  let ?h = "h\<lparr>name := s, name2 := s2, portrait := p, unknown_tail := t\<rparr>"
  define d1 where "d1 = ljust 16 0 nb @ replicate 1738 (0::byte)"
  define d2 where "d2 = take 16 d1 @ ljust 16 0 nb2 @ drop 32 d1"
  have l1: "1754 \<le> length d1" by (simp add: d1_def ljust_def)
  have l2: "139 \<le> length d2" using l1 by (simp add: d2_def ljust_def)
  have s1: "run (pack_names ?h) (replicate CHR_SIZE 0) = Inr d2"
    by (simp add: pack_names_def set_name_eq [OF e1] set_name_eq [OF e2] CHR_SIZE_def
        d1_def [symmetric] d2_def [symmetric])
  have s2: "run (pack_scalars h) d2 = Inr (blit B 32 139 d2)"
    by (rule pack_scalars_decoded [OF dec l2])
  have s3: "set_portrait p (blit B 32 139 d2) =
            Inr (if length p = 1024 then write_at 139 p (blit B 32 139 d2) else blit B 32 139 d2)"
    by (simp add: set_portrait_eq) (simp add: set_portrait_def)
  show ?thesis
    by (simp add: to_bytes_def run_append s1 s2 pack_blobs_def s3 set_tail_eq
        edited_buffer_def Let_def d1_def [symmetric] d2_def [symmetric])
qed

subsection \<open>Decoding an encoded hero\<close>

lemma from_bytes_cong:
  assumes len: "length X = length B"
    and n1: "split_first (take 16 X) = split_first (take 16 B)"
    and n2: "split_first (take 16 (drop 16 X)) = split_first (take 16 (drop 16 B))"
    and dr: "drop 32 X = drop 32 B"
  shows "from_bytes X = from_bytes B"
proof (cases "length B < 1754")
  case True
  then show ?thesis using len by (simp add: from_bytes_def CHR_SIZE_def)
next
  case False
  have drk: "drop k X = drop k B" if "32 \<le> k" for k
  proof -
    have "drop k X = drop (k - 32) (drop 32 X)" using that by simp
    also have "\<dots> = drop (k - 32) (drop 32 B)" by (simp only: dr)
    finally show ?thesis using that by simp
  qed
  have nth: "X ! i = B ! i" if "32 \<le> i" "i < 1754" for i
  proof -
    have "X ! i = hd (drop i X)" using that False len by (simp add: hd_drop_conv_nth)
    also have "\<dots> = hd (drop i B)" using that by (simp add: drk)
    also have "\<dots> = B ! i" using that False by (simp add: hd_drop_conv_nth)
    finally show ?thesis .
  qed
  have a: "py_slice X 0 16 = take 16 X" "py_slice B 0 16 = take 16 B"
    using py_slice_nat [of X 0 16] py_slice_nat [of B 0 16] by simp_all
  have b: "py_slice X 16 32 = take 16 (drop 16 X)" "py_slice B 16 32 = take 16 (drop 16 B)"
    using py_slice_nat [of X 16 32] py_slice_nat [of B 16 32] by simp_all
  have c: "py_slice X 139 (139 + 1024) = take 1024 (drop 139 X)"
      "py_slice B 139 (139 + 1024) = take 1024 (drop 139 B)"
    using py_slice_nat [of X 139 1163] py_slice_nat [of B 139 1163] by simp_all
  have d: "py_slice_from X (139 + 1024) = drop 1163 X" "py_slice_from B (139 + 1024) = drop 1163 B"
    using False len by (simp_all add: py_slice_from_def)
  have ap: "unpack_att_par X k = unpack_att_par B k" if "32 \<le> k" "k + 7 \<le> 1754" for k
    unfolding unpack_att_par_def
    by (rule map_cong [OF refl]) (use that in \<open>simp add: nth\<close>)
  have tr: "unpack_trait X k = unpack_trait B k" if "32 \<le> k" "k + 3 \<le> 1754" for k
    using that by (simp add: unpack_trait_def nth)
  have uh: "unpack_h X k = unpack_h B k" if "32 \<le> k" for k
    using that by (simp add: unpack_h_def drk)
  have ui: "unpack_i X k = unpack_i B k" if "32 \<le> k" for k
    using that by (simp add: unpack_i_def drk)
  show ?thesis using False len
    unfolding from_bytes_def a b c d
    by (simp add: CHR_SIZE_def n1 n2 drk nth ap tr uh ui)
qed

lemma takeWhile_append_zeros:
  "takeWhile (\<lambda>b. b \<noteq> (0::byte)) (takeWhile (\<lambda>b. b \<noteq> 0) xs @ replicate k 0) =
   takeWhile (\<lambda>b. b \<noteq> 0) xs"
proof (induction xs)
  case Nil
  show ?case by (cases k) simp_all
next
  case (Cons x xs)
  then show ?case by simp
qed

lemma split_first_pad_name: "split_first (pad_name field) = split_first field"
  by (simp add: pad_name_def ljust_def split_first_def takeWhile_append_zeros)

lemma normalise_names_props:
  assumes "32 \<le> length B"
  shows "length (normalise_names B) = length B"
    and "take 16 (normalise_names B) = pad_name (take 16 B)"
    and "take 16 (drop 16 (normalise_names B)) = pad_name (take 16 (drop 16 B))"
    and "drop 32 (normalise_names B) = drop 32 B"
proof -
  have l1: "length (pad_name (take 16 B)) = 16"
    using assms by (intro length_pad_name) simp
  have l2: "length (pad_name (take 16 (drop 16 B))) = 16"
    using assms by (intro length_pad_name) simp
  show "length (normalise_names B) = length B"
    using assms by (simp add: normalise_names_def l1 l2)
  show "take 16 (normalise_names B) = pad_name (take 16 B)"
    by (simp add: normalise_names_def l1)
  show "take 16 (drop 16 (normalise_names B)) = pad_name (take 16 (drop 16 B))"
    by (simp add: normalise_names_def l1 l2)
  show "drop 32 (normalise_names B) = drop 32 B"
    by (simp add: normalise_names_def l1 l2)
qed

lemma from_bytes_normalise_names:
  assumes "1754 \<le> length B"
  shows "from_bytes (normalise_names B) = from_bytes B"
proof -
  have l: "32 \<le> length B" using assms by simp
  show ?thesis
    by (rule from_bytes_cong)
      (simp_all add: normalise_names_props [OF l] split_first_pad_name)
qed

lemma edited_buffer_same:
  assumes "1754 \<le> length B"
  shows "edited_buffer B (split_first (take 16 B)) (split_first (take 16 (drop 16 B)))
           (take 1024 (drop 139 B)) (drop 1163 B) = normalise_names B"
proof -
  define d2 where "d2 = pad_name (take 16 B) @ pad_name (take 16 (drop 16 B)) @ replicate 1722 (0::byte)"
  have l1: "length (pad_name (take 16 B)) = 16"
    using assms by (intro length_pad_name) simp
  have l2: "length (pad_name (take 16 (drop 16 B))) = 16"
    using assms by (intro length_pad_name) simp
  have ld2: "length d2 = 1754" by (simp add: d2_def l1 l2)
  have t32: "take 32 d2 = pad_name (take 16 B) @ pad_name (take 16 (drop 16 B))"
    by (simp add: d2_def l1 l2)
  have e: "take 16 (pad_name (take 16 B) @ replicate 1738 0) @ pad_name (take 16 (drop 16 B)) @
           drop 32 (pad_name (take 16 B) @ replicate 1738 0) = d2"
    by (simp add: d2_def l1)
  have w: "write_at 139 (take 1024 (drop 139 B)) (blit B 32 139 d2) = blit B 32 1163 d2"
    using blit_write [of 32 139 1024 d2 B] assms ld2 by simp
  have a: "take 1163 (blit B 32 1163 d2) = take 32 d2 @ take 1131 (drop 32 B)"
    using assms ld2 by (simp add: blit_def)
  have b: "drop (1163 + length (drop 1163 B)) (blit B 32 1163 d2) = []"
    using assms ld2 by simp
  have c: "take 1131 (drop 32 B) @ drop 1163 B = drop 32 B"
    using append_take_drop_id [of 1131 "drop 32 B"] by simp
  have lp: "length (take 1024 (drop 139 B)) = 1024" using assms by simp
  have "edited_buffer B (split_first (take 16 B)) (split_first (take 16 (drop 16 B)))
           (take 1024 (drop 139 B)) (drop 1163 B) =
        take 1163 (blit B 32 1163 d2) @ drop 1163 B @
          drop (1163 + length (drop 1163 B)) (blit B 32 1163 d2)"
    unfolding edited_buffer_def Let_def pad_name_def [symmetric] e
    by (simp only: lp w if_True simp_thms)
  also have "\<dots> = normalise_names B"
    unfolding a b by (simp add: t32 c normalise_names_def)
  finally show ?thesis .
qed

lemma to_bytes_decoded:
  assumes "from_bytes B = Inr h"
  shows "to_bytes h = Inr (normalise_names B)"
proof -
  have len: "1754 \<le> length B" using assms by (rule from_bytes_length)
  have "to_bytes (h\<lparr>name := name h, name2 := name2 h, portrait := portrait h,
          unknown_tail := unknown_tail h\<rparr>) =
        Inr (edited_buffer B (split_first (take 16 B)) (split_first (take 16 (drop 16 B)))
          (portrait h) (unknown_tail h))"
    by (rule to_bytes_edited [OF assms])
      (simp_all add: from_bytes_blobs [OF assms] latin1_encode_decode)
  moreover have "edited_buffer B (split_first (take 16 B)) (split_first (take 16 (drop 16 B)))
          (portrait h) (unknown_tail h) = normalise_names B"
    by (simp add: from_bytes_blobs(3,4) [OF assms] edited_buffer_same [OF len])
  ultimately show ?thesis by simp
qed

lemma all_zero_replicate:
  "list_all (\<lambda>b. b = (0::byte)) xs \<Longrightarrow> xs = replicate (length xs) 0"
  by (induction xs) simp_all

lemma pad_name_null_padded:
  assumes "null_padded field" "length field = 16"
  shows "pad_name field = field"
proof -
  let ?P = "\<lambda>b. b \<noteq> (0::byte)"
  define k where "k = length (dropWhile ?P field)"
  have z: "dropWhile ?P field = replicate k 0"
    unfolding k_def using assms(1) unfolding null_padded_def by (rule all_zero_replicate)
  have "length (takeWhile ?P field) + length (dropWhile ?P field) = 16"
    using assms(2) by (simp only: length_append [symmetric] takeWhile_dropWhile_id)
  then have l: "k = 16 - length (takeWhile ?P field)"
    unfolding k_def by linarith
  have "takeWhile ?P field @ replicate (16 - length (takeWhile ?P field)) 0 =
        takeWhile ?P field @ dropWhile ?P field"
    by (simp only: z l [symmetric])
  then show ?thesis by (simp add: pad_name_def ljust_def split_first_def)
qed

lemma normalise_names_id:
  assumes "32 \<le> length B" "null_padded (take 16 B)" "null_padded (take 16 (drop 16 B))"
  shows "normalise_names B = B"
proof -
  have "normalise_names B = take 16 B @ take 16 (drop 16 B) @ drop 32 B"
    using assms by (simp add: normalise_names_def pad_name_null_padded)
  also have "\<dots> = take 16 B @ drop 16 B"
    using append_take_drop_id [of 16 "drop 16 B"] by simp
  finally show ?thesis by simp
qed

lemma from_bytes_projr: "1754 \<le> length B \<Longrightarrow> from_bytes B = Inr (projr (from_bytes B))"
  by (simp add: from_bytes_def CHR_SIZE_def)

lemma from_bytes_zero_record: "from_bytes zero_record = Inr zero_hero"
  unfolding zero_hero_def by (rule from_bytes_projr) (simp add: zero_record_def CHR_SIZE_def)

lemma normalise_names_stale: "normalise_names stale_name_record ! 1 = 0"
proof -
  have "take 16 stale_name_record = 0 # 1 # replicate 14 0"
    by (simp add: stale_name_record_def)
  then have "pad_name (take 16 stale_name_record) = replicate 16 0"
    by (simp add: pad_name_def split_first_def ljust_def)
  then show ?thesis by (simp add: normalise_names_def nth_append)
qed

subsection \<open>Heroes edited after decoding\<close>

lemma take_139_normalise_names:
  assumes "139 \<le> length B"
  shows "take 139 (normalise_names B) =
         pad_name (take 16 B) @ pad_name (take 16 (drop 16 B)) @ take 107 (drop 32 B)"
proof -
  have l1: "length (pad_name (take 16 B)) = 16"
    using assms by (intro length_pad_name) simp
  have l2: "length (pad_name (take 16 (drop 16 B))) = 16"
    using assms by (intro length_pad_name) simp
  show ?thesis by (simp add: normalise_names_def l1 l2)
qed

lemma edited_buffer_blobs:
  assumes "1754 \<le> length B"
  shows "edited_buffer B (split_first (take 16 B)) (split_first (take 16 (drop 16 B))) p t =
         take 139 (normalise_names B) @ (if length p = 1024 then p else replicate 1024 0) @
         t @ replicate (591 - length t) 0"
proof -
  define d2 where "d2 = pad_name (take 16 B) @ pad_name (take 16 (drop 16 B)) @ replicate 1722 (0::byte)"
  define X where "X = take 139 (normalise_names B)"
  define P where "P = (if length p = 1024 then p else replicate 1024 0)"
  have l1: "length (pad_name (take 16 B)) = 16"
    using assms by (intro length_pad_name) simp
  have l2: "length (pad_name (take 16 (drop 16 B))) = 16"
    using assms by (intro length_pad_name) simp
  have ld2: "length d2 = 1754" by (simp add: d2_def l1 l2)
  have lX: "length X = 139"
    using assms normalise_names_props(1) [of B] by (simp add: X_def)
  have lP: "length P = 1024" by (simp add: P_def)
  have e: "take 16 (pad_name (take 16 B) @ replicate 1738 0) @ pad_name (take 16 (drop 16 B)) @
           drop 32 (pad_name (take 16 B) @ replicate 1738 0) = d2"
    by (simp add: d2_def l1)
  have d3: "blit B 32 139 d2 = X @ replicate 1615 0"
    using assms take_139_normalise_names [of B]
    by (simp add: blit_def d2_def l1 l2 X_def)
  have d4: "(if length p = 1024 then write_at 139 p (blit B 32 139 d2) else blit B 32 139 d2) =
            X @ P @ replicate 591 0"
  proof (cases "length p = 1024")
    case True
    then show ?thesis by (simp add: d3 write_at_def lX P_def)
  next
    case False
    have "replicate 1615 (0::byte) = replicate 1024 0 @ replicate 591 0"
      by (simp add: replicate_add [symmetric])
    then show ?thesis using False by (simp add: d3 P_def)
  qed
  have "edited_buffer B (split_first (take 16 B)) (split_first (take 16 (drop 16 B))) p t =
        take 1163 (X @ P @ replicate 591 0) @ t @ drop (1163 + length t) (X @ P @ replicate 591 0)"
    unfolding edited_buffer_def Let_def pad_name_def [symmetric] e d4 ..
  also have "\<dots> = X @ P @ t @ replicate (591 - length t) 0"
    by (simp add: lX lP)
  finally show ?thesis by (simp add: X_def P_def)
qed

lemma to_bytes_blobs_edited:
  assumes "from_bytes B = Inr h"
  shows "to_bytes (h\<lparr>portrait := p, unknown_tail := t\<rparr>) =
         Inr (take 139 (normalise_names B) @ (if length p = 1024 then p else replicate 1024 0) @
              t @ replicate (591 - length t) 0)"
proof -
  have len: "1754 \<le> length B" using assms by (rule from_bytes_length)
  have "to_bytes (h\<lparr>name := name h, name2 := name2 h, portrait := p, unknown_tail := t\<rparr>) =
        Inr (edited_buffer B (split_first (take 16 B)) (split_first (take 16 (drop 16 B))) p t)"
    by (rule to_bytes_edited [OF assms])
      (simp_all add: from_bytes_blobs [OF assms] latin1_encode_decode)
  then show ?thesis by (simp add: edited_buffer_blobs [OF len])
qed

lemma normalise_names_split:
  assumes "1754 \<le> length B"
  shows "normalise_names B = take 139 (normalise_names B) @ take 1024 (drop 139 B) @ drop 1163 B"
proof -
  have l: "32 \<le> length B" using assms by simp
  have "drop 139 (normalise_names B) = drop 107 (drop 32 (normalise_names B))" by simp
  also have "\<dots> = drop 139 B" by (simp add: normalise_names_props(4) [OF l])
  finally have d: "drop 139 (normalise_names B) = drop 139 B" .
  have "normalise_names B = take 139 (normalise_names B) @ drop 139 (normalise_names B)"
    by simp
  also have "\<dots> = take 139 (normalise_names B) @ drop 139 B" by (simp only: d)
  also have "drop 139 B = take 1024 (drop 139 B) @ drop 1163 B"
    using append_take_drop_id [of 1024 "drop 139 B"] by simp
  finally show ?thesis .
qed

lemma to_bytes_name_edited:
  assumes dec: "from_bytes B = Inr h" and enc: "latin1_encode s = Inr nb"
  shows "to_bytes (h\<lparr>name := s\<rparr>) =
         Inr (take 16 (ljust 16 0 nb) @ drop 16 (normalise_names B) @
              drop (length B) (ljust 16 0 nb @ replicate 1738 0))"
proof -
  have len: "1754 \<le> length B" using dec by (rule from_bytes_length)
  define N where "N = ljust 16 0 nb"
  define d1 where "d1 = N @ replicate 1738 (0::byte)"
  define pad2 where "pad2 = pad_name (take 16 (drop 16 B))"
  define d2 where "d2 = take 16 d1 @ pad2 @ drop 32 d1"
  have lN: "16 \<le> length N" by (simp add: N_def ljust_def)
  have l2: "length pad2 = 16"
    unfolding pad2_def using len by (intro length_pad_name) simp
  have l1: "length (pad_name (take 16 B)) = 16"
    using len by (intro length_pad_name) simp
  have ld1: "length d1 = length N + 1738" by (simp add: d1_def)
  have ld2: "length d2 = length N + 1738" using lN by (simp add: d2_def l2 ld1)
  have t16: "take 16 d1 = take 16 N" using lN by (simp add: d1_def)
  have t32: "take 32 d2 = take 16 N @ pad2" using lN by (simp add: d2_def l2 t16)
  have w: "write_at 139 (take 1024 (drop 139 B)) (blit B 32 139 d2) = blit B 32 1163 d2"
    using blit_write [of 32 139 1024 d2 B] len lN ld2 by simp
  have a: "take 1163 (blit B 32 1163 d2) = take 32 d2 @ take 1131 (drop 32 B)"
    using len lN ld2 by (simp add: blit_def)
  have b: "drop (1163 + length (drop 1163 B)) (blit B 32 1163 d2) = drop (length B) d1"
  proof -
    have "drop (1163 + length (drop 1163 B)) (blit B 32 1163 d2) = drop (length B) (blit B 32 1163 d2)"
      using len by simp
    also have "\<dots> = drop (length B - 1163) (drop 1163 (blit B 32 1163 d2))"
      using len by simp
    also have "drop 1163 (blit B 32 1163 d2) = drop 1163 d2"
      using len lN ld2 by (simp add: blit_def)
    also have "drop (length B - 1163) (drop 1163 d2) = drop (length B) d2"
      using len by simp
    also have "\<dots> = drop (length B - 32) (drop 32 d2)"
      using len by simp
    also have "drop 32 d2 = drop 32 d1"
      using lN by (simp add: d2_def l2 ld1)
    also have "drop (length B - 32) (drop 32 d1) = drop (length B) d1"
      using len by simp
    finally show ?thesis .
  qed
  have c: "take 1131 (drop 32 B) @ drop 1163 B = drop 32 B"
    using append_take_drop_id [of 1131 "drop 32 B"] by simp
  have lp: "length (take 1024 (drop 139 B)) = 1024" using len by simp
  have nn: "drop 16 (normalise_names B) = pad2 @ drop 32 B"
    by (simp add: normalise_names_def l1 pad2_def)
  have "edited_buffer B nb (split_first (take 16 (drop 16 B)))
           (take 1024 (drop 139 B)) (drop 1163 B) =
        take 1163 (blit B 32 1163 d2) @ drop 1163 B @
          drop (1163 + length (drop 1163 B)) (blit B 32 1163 d2)"
    unfolding edited_buffer_def Let_def pad_name_def [symmetric] N_def [symmetric]
      d1_def [symmetric] pad2_def [symmetric] d2_def [symmetric]
    by (simp only: lp w if_True simp_thms)
  also have "\<dots> = take 16 N @ drop 16 (normalise_names B) @ drop (length B) d1"
    unfolding a b by (simp add: t32 c nn)
  finally have eb: "edited_buffer B nb (split_first (take 16 (drop 16 B)))
           (take 1024 (drop 139 B)) (drop 1163 B) =
        take 16 N @ drop 16 (normalise_names B) @ drop (length B) d1" .
  have "to_bytes (h\<lparr>name := s, name2 := name2 h, portrait := portrait h,
          unknown_tail := unknown_tail h\<rparr>) =
        Inr (edited_buffer B nb (split_first (take 16 (drop 16 B)))
          (portrait h) (unknown_tail h))"
    by (rule to_bytes_edited [OF dec enc])
      (simp add: from_bytes_blobs [OF dec] latin1_encode_decode)
  moreover have "edited_buffer B nb (split_first (take 16 (drop 16 B)))
          (portrait h) (unknown_tail h) =
        take 16 (ljust 16 0 nb) @ drop 16 (normalise_names B) @
          drop (length B) (ljust 16 0 nb @ replicate 1738 0)"
    by (simp only: from_bytes_blobs(3,4) [OF dec] eb N_def d1_def)
  ultimately show ?thesis by simp
qed

lemma le_uint_le_bytes: "le_uint (le_bytes n v) = v mod 256 ^ n"
proof (induction n arbitrary: v)
  case 0
  show ?case by simp
next
  case (Suc n)
  have b: "uint (word_of_int (v mod 256) :: byte) = v mod 256"
    by (simp add: uint_word_of_int)
  have "v mod (256 * 256 ^ n) = 256 * (v div 256 mod 256 ^ n) + v mod 256"
    by (rule zmod_zmult2_eq) simp
  then show ?case using Suc.IH [of "v div 256"] by (simp add: b)
qed

lemma unpack_pack_i:
  assumes "- 2147483648 \<le> e" "e \<le> 2147483647"
  shows "to_signed 32 (le_uint (le_bytes 4 e)) = e"
proof (cases "0 \<le> e")
  case True
  then have "e mod 4294967296 = e" using assms by simp
  then show ?thesis using assms True by (simp add: le_uint_le_bytes to_signed_def)
next
  case False
  have "(e + 4294967296) mod 4294967296 = e + 4294967296"
    using assms False by (intro mod_pos_pos_trivial) simp_all
  then have "e mod 4294967296 = e + 4294967296" by simp
  then show ?thesis using assms False by (simp add: le_uint_le_bytes to_signed_def)
qed

lemma length_le_bytes [simp]: "length (le_bytes n v) = n"
  by (induction n arbitrary: v) simp_all

lemma from_bytes_exp_edited:
  assumes dec: "from_bytes B = Inr h"
    and lo: "- 2147483648 \<le> e" and hi: "e \<le> 2147483647"
  shows "from_bytes (write_at 40 (le_bytes 4 e) B) = Inr (h\<lparr>exp := e\<rparr>)"
proof -
  define bs where "bs = le_bytes 4 e"
  define X where "X = write_at 40 bs B"
  have len: "1754 \<le> length B" using dec by (rule from_bytes_length)
  have lbs: "length bs = 4" by (simp add: bs_def)
  have X: "X = take 40 B @ bs @ drop 44 B" by (simp add: X_def write_at_def lbs)
  have lX: "length X = length B" using len by (simp add: X lbs)
  have tk: "take n X = take n B" if "n \<le> 40" for n
    using that len by (simp add: X)
  have dr: "drop k X = drop k B" if "44 \<le> k" for k
    using that len by (simp add: X lbs)
  have seg: "take n (drop k X) = take n (drop k B)" if "k + n \<le> 40" for k n
  proof -
    have "take n (drop k X) = drop k (take (k + n) X)" by (simp add: drop_take)
    also have "\<dots> = drop k (take (k + n) B)" using that by (simp add: tk)
    also have "\<dots> = take n (drop k B)" by (simp add: drop_take)
    finally show ?thesis .
  qed
  have nth_lo: "X ! i = B ! i" if "i < 40" for i
    using that len by (simp add: X nth_append)
  have nth_hi: "X ! i = B ! i" if "44 \<le> i" "i < 1754" for i
  proof -
    have "X ! i = hd (drop i X)" using that len lX by (simp add: hd_drop_conv_nth)
    also have "\<dots> = hd (drop i B)" using that by (simp add: dr)
    also have "\<dots> = B ! i" using that len by (simp add: hd_drop_conv_nth)
    finally show ?thesis .
  qed
  have ex: "unpack_i X 40 = e"
    using len unpack_pack_i [OF lo hi] by (simp add: unpack_i_def X lbs bs_def)
  have mo: "unpack_i X 44 = unpack_i B 44" by (simp add: unpack_i_def dr)
  have sz: "unpack_h X 35 = unpack_h B 35" by (simp add: unpack_h_def seg)
  have uh: "unpack_h X k = unpack_h B k" if "44 \<le> k" for k
    using that by (simp add: unpack_h_def dr)
  have tr: "unpack_trait X k = unpack_trait B k" if "44 \<le> k" "k + 3 \<le> 1754" for k
    using that by (simp add: unpack_trait_def nth_hi)
  have ap: "unpack_att_par X k = unpack_att_par B k" if "44 \<le> k" "k + 7 \<le> 1754" for k
    unfolding unpack_att_par_def
    by (rule map_cong [OF refl]) (use that in \<open>simp add: nth_hi\<close>)
  have a: "py_slice X 0 16 = py_slice B 0 16"
    using py_slice_nat [of X 0 16] py_slice_nat [of B 0 16] by (simp add: tk)
  have b: "py_slice X 16 32 = py_slice B 16 32"
    using py_slice_nat [of X 16 32] py_slice_nat [of B 16 32] seg [of 16 16] by simp
  have c: "py_slice X 139 (139 + 1024) = py_slice B 139 (139 + 1024)"
    using py_slice_nat [of X 139 1163] py_slice_nat [of B 139 1163] by (simp add: dr)
  have d: "py_slice_from X (139 + 1024) = py_slice_from B (139 + 1024)"
    using len lX by (simp add: py_slice_from_def dr)
  have h: "h = projr (from_bytes B)" using dec by simp
  have "from_bytes X = Inr ((projr (from_bytes B))\<lparr>exp := e\<rparr>)"
    using len lX unfolding from_bytes_def a b c d
    by (simp add: CHR_SIZE_def nth_lo nth_hi ex mo sz uh tr ap)
  then show ?thesis by (simp add: h X_def bs_def)
qed

lemma to_bytes_exp_edited:
  assumes dec: "from_bytes B = Inr h"
    and lo: "- 2147483648 \<le> e" and hi: "e \<le> 2147483647"
  shows "to_bytes (h\<lparr>exp := e\<rparr>) = Inr (normalise_names (write_at 40 (le_bytes 4 e) B))"
  by (rule to_bytes_decoded [OF from_bytes_exp_edited [OF assms]])

lemma null_padded_zeros [simp]: "null_padded (replicate n 0)"
  by (simp add: null_padded_def list_all_iff)

lemma normalise_names_zero_record: "normalise_names zero_record = zero_record"
  by (rule normalise_names_id) (simp_all add: zero_record_def CHR_SIZE_def)

lemma zero_record_parts:
  "replicate 139 (0::byte) @ replicate 1024 0 @ replicate 591 0 = zero_record"
  by (simp add: zero_record_def CHR_SIZE_def replicate_add [symmetric])

lemma to_bytes_zero_hero_blobs:
  "to_bytes (zero_hero\<lparr>portrait := p, unknown_tail := t\<rparr>) =
   Inr (replicate 139 0 @ (if length p = 1024 then p else replicate 1024 0) @
        t @ replicate (591 - length t) 0)"
  using to_bytes_blobs_edited [OF from_bytes_zero_record, where p = p and t = t]
  by (simp add: normalise_names_zero_record) (simp add: zero_record_def CHR_SIZE_def)

lemma zero_hero_blobs:
  "portrait zero_hero = replicate 1024 0" "unknown_tail zero_hero = replicate 591 0"
  using from_bytes_blobs(3,4) [OF from_bytes_zero_record]
  by (simp_all add: zero_record_def CHR_SIZE_def)

lemma latin1_encode_long_name: "latin1_encode long_name = Inr (replicate 17 65)"
  by (simp add: latin1_encode_def long_name_def list_all_iff)

lemma le_bytes_4_5: "le_bytes 4 5 = [5, 0, 0, 0]"
  by (simp add: eval_nat_numeral)

subsection \<open>The hero loop of the container\<close>

lemma length_py_slice_le: "0 \<le> k \<Longrightarrow> length (py_slice xs a (a + k)) \<le> nat k"
  by (auto simp: py_slice_def slice_index_def Let_def)

lemma length_window_le: "length (window data c i) \<le> 1754"
  using length_py_slice_le [of 1754 data "c + int i * 1754"]
  by (simp add: window_def CHR_SIZE_def)

lemma window_full:
  assumes "0 \<le> c" "nat c + (i + 1) * 1754 \<le> length data"
  shows "window data c i = take 1754 (drop (nat c + i * 1754) data)"
    and "length (window data c i) = 1754"
proof -
  have e: "c + int i * 1754 = int (nat c + i * 1754)" using assms by simp
  have e2: "c + int i * 1754 + 1754 = int (nat c + i * 1754 + 1754)" using assms by simp
  show w: "window data c i = take 1754 (drop (nat c + i * 1754) data)"
    unfolding window_def CHR_SIZE_def using py_slice_nat [of data "nat c + i * 1754" "nat c + i * 1754 + 1754"]
    by (simp only: e e2 of_nat_numeral) simp
  show "length (window data c i) = 1754" unfolding w using assms by simp
qed

lemma read_heroes_Inr:
  assumes "\<forall>i\<in>set is. 1754 \<le> length (window data c i)"
  shows "read_heroes data c is hs =
         Inr (hs @ map (\<lambda>i. projr (from_bytes (window data c i))) is)"
  using assms
proof (induction "is" arbitrary: hs)
  case Nil
  show ?case by simp
next
  case (Cons i "is")
  have "from_bytes (window data c i) = Inr (projr (from_bytes (window data c i)))"
    using Cons.prems by (intro from_bytes_projr) simp
  then obtain h where h: "from_bytes (window data c i) = Inr h" by blast
  have "read_heroes data c (i # is) hs = read_heroes data c is (hs @ [h])"
    by (simp add: Let_def window_def [symmetric] h)
  also have "\<dots> = Inr ((hs @ [h]) @ map (\<lambda>i. projr (from_bytes (window data c i))) is)"
    using Cons.prems by (intro Cons.IH) simp
  finally show ?case by (simp add: h)
qed

lemma read_heroes_sound:
  assumes "read_heroes data c is hs = Inr r"
  shows "\<exists>hs'. r = hs @ hs' \<and> length hs' = length is \<and>
           (\<forall>h\<in>set hs'. \<exists>i\<in>set is. from_bytes (window data c i) = Inr h)"
  using assms
proof (induction "is" arbitrary: hs)
  case Nil
  then show ?case by simp
next
  case (Cons i "is")
  from Cons.prems obtain h where h: "from_bytes (window data c i) = Inr h"
    and r: "read_heroes data c is (hs @ [h]) = Inr r"
    by (auto simp: Let_def window_def [symmetric] split: sum.splits)
  from Cons.IH [OF r] obtain hs' where hs': "r = (hs @ [h]) @ hs'" "length hs' = length is"
    "\<forall>h\<in>set hs'. \<exists>i\<in>set is. from_bytes (window data c i) = Inr h"
    by blast
  show ?case
  proof (intro exI conjI)
    show "r = hs @ (h # hs')" using hs'(1) by simp
    show "length (h # hs') = length (i # is)" using hs'(2) by simp
    show "\<forall>x\<in>set (h # hs'). \<exists>j\<in>set (i # is). from_bytes (window data c j) = Inr x"
      using h hs'(3) by auto
  qed
qed

lemma read_heroes_Inl:
  assumes "read_heroes data c is hs = Inl e"
  shows "e = ValueError \<and> (\<exists>i\<in>set is. length (window data c i) < 1754)"
  using assms
proof (induction "is" arbitrary: hs)
  case Nil
  then show ?case by simp
next
  case (Cons i "is")
  show ?case
  proof (cases "from_bytes (window data c i)")
    case (Inl e')
    then have "e' = ValueError \<and> length (window data c i) < 1754"
      by (auto simp: from_bytes_def CHR_SIZE_def split: if_splits)
    then show ?thesis using Cons.prems Inl by (simp add: Let_def window_def [symmetric])
  next
    case (Inr h)
    then have "read_heroes data c is (hs @ [h]) = Inl e"
      using Cons.prems by (simp add: Let_def window_def [symmetric])
    from Cons.IH [OF this] show ?thesis by auto
  qed
qed

lemma from_file_short: "length data < 20 \<Longrightarrow> from_file data = Inl StructError"
  by (simp add: from_file_def unpack_from_i_def Let_def)

lemma from_file_unfold:
  assumes "20 \<le> length data"
  shows "from_file data =
         (case read_heroes data (unpack_i data 16)
                 (py_range ((int (length data) - unpack_i data 16) div 1754)) [] of
            Inl e \<Rightarrow> Inl e
          | Inr hs \<Rightarrow>
              Inr \<lparr>version_header = take 16 data, chr_offset = unpack_i data 16,
                   metadata = take 10 (drop 20 data),
                   pre_hero_data = py_slice data 20 (unpack_i data 16), heroes = hs\<rparr>)"
  using assms py_slice_nat [of data 20 30]
  by (simp add: from_file_def unpack_from_i_def Let_def py_slice_to_def CHR_SIZE_def)

lemma windows_full:
  assumes "0 \<le> c" "i < nat ((int (length data) - c) div 1754)"
  shows "nat c + (i + 1) * 1754 \<le> length data"
proof -
  define q where "q = (int (length data) - c) div 1754"
  have "q * 1754 \<le> int (length data) - c"
    unfolding q_def using div_mult_mod_eq [of "int (length data) - c" 1754]
      pos_mod_sign [of 1754 "int (length data) - c"] by linarith
  moreover have "int i + 1 \<le> q" using assms(2) by (simp add: q_def)
  then have "(int i + 1) * 1754 \<le> q * 1754" by simp
  ultimately have "c + (int i + 1) * 1754 \<le> int (length data)" by linarith
  then show ?thesis using assms(1) by (simp add: nat_le_iff nat_add_distrib)
qed

lemma from_file_nonneg:
  assumes "20 \<le> length data" "0 \<le> unpack_i data 16"
  shows "from_file data =
         Inr \<lparr>version_header = take 16 data, chr_offset = unpack_i data 16,
              metadata = take 10 (drop 20 data),
              pre_hero_data = py_slice data 20 (unpack_i data 16),
              heroes = map (\<lambda>i. projr (from_bytes (take 1754 (drop (nat (unpack_i data 16) + i * 1754) data))))
                         [0..<nat ((int (length data) - unpack_i data 16) div 1754)]\<rparr>"
proof -
  define c where "c = unpack_i data 16"
  define n where "n = nat ((int (length data) - c) div 1754)"
  have full: "nat c + (i + 1) * 1754 \<le> length data" if "i < n" for i
    using that assms(2) windows_full [of c i data] by (simp add: c_def n_def)
  have w: "window data c i = take 1754 (drop (nat c + i * 1754) data)" if "i < n" for i
    using window_full(1) [OF _ full [OF that]] assms(2) by (simp add: c_def)
  have l: "\<forall>i\<in>set [0..<n]. 1754 \<le> length (window data c i)"
    using window_full(2) [OF _ full] assms(2) by (simp add: c_def)
  have m: "map (\<lambda>i. projr (from_bytes (window data c i))) [0..<n] =
           map (\<lambda>i. projr (from_bytes (take 1754 (drop (nat c + i * 1754) data)))) [0..<n]"
    by (rule map_cong [OF refl]) (simp add: w)
  show ?thesis
    unfolding from_file_unfold [OF assms(1)] c_def [symmetric] py_range_def n_def [symmetric]
    by (simp add: read_heroes_Inr [OF l] m)
qed

lemma write_heroes_decoded:
  assumes "\<forall>h\<in>set hs. \<exists>w. length w = 1754 \<and> from_bytes w = Inr h"
  shows "\<exists>out. write_heroes hs acc = Inr (acc @ out) \<and> length out = 1754 * length hs"
  using assms
proof (induction hs arbitrary: acc)
  case Nil
  show ?case by simp
next
  case (Cons h hs)
  from Cons.prems obtain w where w: "length w = 1754" "from_bytes w = Inr h" by auto
  have tb: "to_bytes h = Inr (normalise_names w)" by (rule to_bytes_decoded [OF w(2)])
  have ln: "length (normalise_names w) = 1754"
    using normalise_names_props(1) [of w] w(1) by simp
  from Cons.IH [of "acc @ normalise_names w"] Cons.prems
  obtain out where out: "write_heroes hs (acc @ normalise_names w) = Inr ((acc @ normalise_names w) @ out)"
    "length out = 1754 * length hs" by auto
  show ?case
  proof (intro exI conjI)
    show "write_heroes (h # hs) acc = Inr (acc @ (normalise_names w @ out))"
      by (simp add: tb out(1))
    show "length (normalise_names w @ out) = 1754 * length (h # hs)"
      by (simp add: ln out(2))
  qed
qed

subsection \<open>Evaluation on the concrete files\<close>

lemma unpack_i_header:
  "unpack_i (replicate 16 0 @ [a, b, c, d] @ rest) 16 = to_signed 32 (le_uint [a, b, c, d])"
  by (simp add: unpack_i_def)

lemma offsets:
  "unpack_i zero_offset_file 16 = 0"
  "unpack_i far_offset_file 16 = 100"
  "unpack_i negative_offset_file 16 = - 1734"
  "unpack_i remainder_file 16 = 20"
  "unpack_i hero_file 16 = 30"
proof -
  have e_zero_offset_file: "zero_offset_file = replicate 16 0 @ [0, 0, 0, 0] @ []"
    by (simp add: zero_offset_file_def eval_nat_numeral)
  show "unpack_i zero_offset_file 16 = 0"
    unfolding e_zero_offset_file by (simp only: unpack_i_header) (simp add: to_signed_def)
  have e_far_offset_file: "far_offset_file = replicate 16 0 @ [100, 0, 0, 0] @ []"
    by (simp add: far_offset_file_def)
  show "unpack_i far_offset_file 16 = 100"
    unfolding e_far_offset_file by (simp only: unpack_i_header) (simp add: to_signed_def)
  have e_negative_offset_file: "negative_offset_file = replicate 16 0 @ [58, 249, 255, 255] @ []"
    by (simp add: negative_offset_file_def)
  show "unpack_i negative_offset_file 16 = - 1734"
    unfolding e_negative_offset_file by (simp only: unpack_i_header) (simp add: to_signed_def)
  show "unpack_i remainder_file 16 = 20"
    unfolding remainder_file_def by (simp only: unpack_i_header) (simp add: to_signed_def)
  show "unpack_i hero_file 16 = 30"
    unfolding hero_file_def by (simp only: unpack_i_header) (simp add: to_signed_def)
qed

lemma file_lengths:
  "length zero_offset_file = 20" "length far_offset_file = 20"
  "length negative_offset_file = 20" "length remainder_file = 25" "length hero_file = 1787"
  by (simp_all add: zero_offset_file_def far_offset_file_def negative_offset_file_def
      remainder_file_def hero_file_def zero_record_def CHR_SIZE_def)

lemma from_file_zero_offset:
  "from_file zero_offset_file =
   Inr \<lparr>version_header = replicate 16 0, chr_offset = 0, metadata = [],
        pre_hero_data = [], heroes = []\<rparr>"
proof -
  have p: "py_slice zero_offset_file 20 0 = []"
    by (simp add: py_slice_def Let_def)
  show ?thesis
    by (subst from_file_nonneg) (simp_all add: offsets file_lengths p, simp add: zero_offset_file_def)
qed

lemma from_file_negative_offset: "from_file negative_offset_file = Inl ValueError"
proof -
  have w: "py_slice negative_offset_file (- 1734) 20 = negative_offset_file"
    by (simp add: py_slice_def slice_index_def Let_def file_lengths)
  have r: "py_range 1 = [0]" by (simp add: py_range_def)
  have f: "from_bytes negative_offset_file = Inl ValueError"
    by (simp add: from_bytes_def file_lengths CHR_SIZE_def)
  show ?thesis
    by (simp add: from_file_unfold file_lengths offsets r Let_def CHR_SIZE_def w f)
qed

lemma from_file_remainder:
  "from_file remainder_file =
   Inr \<lparr>version_header = replicate 16 0, chr_offset = 20, metadata = [1, 2, 3, 4, 5],
        pre_hero_data = [], heroes = []\<rparr>"
proof -
  have p: "py_slice remainder_file 20 20 = []"
    using py_slice_nat [of remainder_file 20 20] by simp
  show ?thesis
    by (subst from_file_nonneg) (simp_all add: offsets file_lengths p, simp add: remainder_file_def)
qed

lemma from_file_hero_file: "from_file hero_file = Inr hero_file_game"
proof -
  have p: "py_slice hero_file 20 30 = replicate 10 7"
    using py_slice_nat [of hero_file 20 30] by (simp add: hero_file_def)
  have d: "take 1754 (drop 30 hero_file) = zero_record"
    by (simp add: hero_file_def zero_record_def CHR_SIZE_def)
  have u: "[0..<Suc 0] = [0]" by simp
  have md: "take 10 (drop 20 hero_file) = replicate 10 7" by (simp add: hero_file_def)
  have vh: "take 16 hero_file = replicate 16 0" by (simp add: hero_file_def)
  show ?thesis
    by (subst from_file_nonneg)
      (simp_all add: offsets file_lengths p d md vh hero_file_game_def zero_hero_def)
qed

section \<open>The claims\<close>

text \<open>
  C1 (as amended). Hero round trip: for every byte buffer \<open>B\<close> of length exactly 1754 whose
  two name fields have only null bytes after their first null byte, encoding the hero
  decoded from \<open>B\<close> yields exactly \<open>B\<close> again.
\<close>

theorem hero_round_trip:
  assumes "length B = 1754" "null_padded (take 16 B)" "null_padded (take 16 (drop 16 B))"
  shows "recode B = Inr B"
proof -
  obtain h where h: "from_bytes B = Inr h"
    using assms(1) by (simp add: from_bytes_def CHR_SIZE_def)
  have "to_bytes h = Inr (normalise_names B)" by (rule to_bytes_decoded [OF h])
  then show ?thesis using assms by (simp add: recode_def h normalise_names_id)
qed

theorem hero_round_trip_witness:
  "length zero_record = 1754 \<and> null_padded (take 16 zero_record) \<and>
   null_padded (take 16 (drop 16 zero_record)) \<and> recode zero_record = Inr zero_record"
  using hero_round_trip [of zero_record]
  by (simp add: zero_record_def CHR_SIZE_def null_padded_def list_all_iff)

text \<open>
  Without the condition on the name fields the round trip fails: the record
  \<open>stale_name_record\<close> has the name field \<open>00 01 00 ...\<close>, it decodes to the empty
  name and re-encodes with sixteen null bytes.
\<close>

theorem hero_round_trip_counterexample:
  "length stale_name_record = 1754 \<and> recode stale_name_record \<noteq> Inr stale_name_record"
proof -
  have l: "1754 \<le> length stale_name_record" by (simp add: stale_name_record_def)
  obtain h where h: "from_bytes stale_name_record = Inr h"
    using from_bytes_projr [OF l] by blast
  have "recode stale_name_record = Inr (normalise_names stale_name_record)"
    using to_bytes_decoded [OF h] by (simp add: recode_def h)
  moreover have "stale_name_record ! 1 = 1" by (simp add: stale_name_record_def)
  ultimately show ?thesis using normalise_names_stale
    by (auto simp: stale_name_record_def)
qed

text \<open>
  C2. Decode after encode is the identity on decoded heroes: for every hero \<open>h\<close> that
  \<open>from_bytes\<close> produced (from a buffer of length at least 1754, or it would have
  raised), \<open>to_bytes h\<close> returns a buffer and decoding that buffer yields \<open>h\<close> again.
\<close>

theorem decode_encode_identity:
  assumes "from_bytes B = Inr h"
  shows "\<exists>B'. to_bytes h = Inr B' \<and> from_bytes B' = Inr h"
  using assms to_bytes_decoded [OF assms] from_bytes_normalise_names [OF from_bytes_length [OF assms]]
  by simp

theorem decode_encode_identity_witness:
  "from_bytes zero_record = Inr zero_hero \<and>
   (\<exists>B'. to_bytes zero_hero = Inr B' \<and> from_bytes B' = Inr zero_hero)"
  using decode_encode_identity [OF from_bytes_zero_record] from_bytes_zero_record by simp

text \<open>
  C3 (as amended). A portrait that is not exactly 1024 bytes long is not rejected: for
  every hero decoded from a record and given such a portrait, \<open>to_bytes\<close> skips the
  portrait assignment and returns a buffer whose bytes 139 to 1162 are the null bytes
  the buffer was initialised with; every other byte is as for the decoded hero. The
  result is the one \<open>to_bytes\<close> gives for a portrait of 1024 null bytes.
\<close>

theorem portrait_zero_fill:
  assumes "from_bytes B = Inr h" "length p \<noteq> 1024"
  shows "to_bytes (h\<lparr>portrait := p\<rparr>) =
           Inr (take 139 (normalise_names B) @ replicate 1024 0 @ drop 1163 B) \<and>
         to_bytes (h\<lparr>portrait := p\<rparr>) = to_bytes (h\<lparr>portrait := replicate 1024 0\<rparr>)"
proof -
  have len: "1754 \<le> length B" using assms(1) by (rule from_bytes_length)
  have t: "unknown_tail h = drop 1163 B" by (rule from_bytes_blobs(4) [OF assms(1)])
  have a: "to_bytes (h\<lparr>portrait := p, unknown_tail := unknown_tail h\<rparr>) =
        Inr (take 139 (normalise_names B) @ replicate 1024 0 @ drop 1163 B)"
    unfolding to_bytes_blobs_edited [OF assms(1)] using assms(2) len by (simp add: t)
  have b: "to_bytes (h\<lparr>portrait := replicate 1024 0, unknown_tail := unknown_tail h\<rparr>) =
        Inr (take 139 (normalise_names B) @ replicate 1024 0 @ drop 1163 B)"
    unfolding to_bytes_blobs_edited [OF assms(1)] using len by (simp add: t)
  show ?thesis using a b by simp
qed

theorem portrait_zero_fill_witness:
  "from_bytes zero_record = Inr zero_hero \<and> length ([] :: bytes) \<noteq> 1024 \<and>
   to_bytes (zero_hero\<lparr>portrait := []\<rparr>) =
     Inr (take 139 (normalise_names zero_record) @ replicate 1024 0 @ drop 1163 zero_record) \<and>
   to_bytes (zero_hero\<lparr>portrait := []\<rparr>) = to_bytes (zero_hero\<lparr>portrait := replicate 1024 0\<rparr>)"
proof -
  have n: "length ([] :: bytes) \<noteq> 1024" by simp
  show ?thesis
    using portrait_zero_fill [OF from_bytes_zero_record n] from_bytes_zero_record n by blast
qed

text \<open>
  The claim as stated (an \<open>InvalidPortraitSize\<close> error instead of a buffer) fails for
  the hero decoded from the all-zero record and given the empty portrait: \<open>to_bytes\<close>
  returns the all-zero record.
\<close>

theorem portrait_rejection_counterexample:
  "length ([] :: bytes) \<noteq> 1024 \<and> to_bytes (zero_hero\<lparr>portrait := []\<rparr>) = Inr zero_record"
proof -
  have "to_bytes (zero_hero\<lparr>portrait := [], unknown_tail := unknown_tail zero_hero\<rparr>) =
        Inr (replicate 139 0 @ replicate 1024 0 @ replicate 591 0)"
    unfolding to_bytes_zero_hero_blobs by (simp add: zero_hero_blobs)
  then show ?thesis by (simp add: zero_record_parts)
qed

text \<open>
  C4 (as amended). A name that encodes to more than 16 bytes is not rejected: for every
  hero decoded from a 1754-byte record and given a name whose latin-1 encoding \<open>nb\<close> has
  more than 16 bytes, \<open>to_bytes\<close> returns a buffer. The slice assignment
  \<open>data[0:16] = nb\<close> grows the buffer by \<open>len(nb) - 16\<close> bytes and the later
  assignments overwrite the offsets 16 and up, so the result is longer than a record:
  the first 16 bytes of the name, then bytes 16 to 1753 as for the decoded hero, then
  \<open>len(nb) - 16\<close> surplus bytes.
\<close>

theorem name_overflow_grows:
  assumes "from_bytes B = Inr h" "length B = 1754"
    and "latin1_encode s = Inr nb" "16 < length nb"
  shows "\<exists>d. to_bytes (h\<lparr>name := s\<rparr>) = Inr d \<and>
             d = take 16 nb @ drop 16 (normalise_names B) @ drop 1754 (nb @ replicate 1738 0) \<and>
             length d = 1754 + (length nb - 16)"
proof -
  have l: "ljust 16 0 nb = nb" using assms(4) by (simp add: ljust_def)
  have n: "length (normalise_names B) = 1754"
    using normalise_names_props(1) [of B] assms(2) by simp
  show ?thesis
    using to_bytes_name_edited [OF assms(1,3)] assms(2,4) n by (simp add: l)
qed

theorem name_overflow_grows_witness:
  "from_bytes zero_record = Inr zero_hero \<and> length zero_record = 1754 \<and>
   latin1_encode long_name = Inr (replicate 17 65) \<and> 16 < length (replicate 17 (65 :: byte)) \<and>
   (\<exists>d. to_bytes (zero_hero\<lparr>name := long_name\<rparr>) = Inr d \<and>
        d = take 16 (replicate 17 65) @ drop 16 (normalise_names zero_record) @
            drop 1754 (replicate 17 65 @ replicate 1738 0) \<and>
        length d = 1754 + (length (replicate 17 (65 :: byte)) - 16))"
proof -
  have l: "length zero_record = 1754" by (simp add: zero_record_def CHR_SIZE_def)
  have g: "16 < length (replicate 17 (65 :: byte))" by simp
  show ?thesis
    using name_overflow_grows [OF from_bytes_zero_record l latin1_encode_long_name g]
      from_bytes_zero_record l latin1_encode_long_name g
    by blast
qed

text \<open>
  The claim as stated (a \<open>FieldOverflow\<close> error and no output) fails for the hero
  decoded from the all-zero record and given a name of 17 letters \<open>A\<close>: \<open>to_bytes\<close>
  returns 1755 bytes, the name cut down to 16 bytes.
\<close>

theorem name_overflow_counterexample:
  "latin1_encode long_name = Inr (replicate 17 65) \<and> 16 < length (replicate 17 (65 :: byte)) \<and>
   to_bytes (zero_hero\<lparr>name := long_name\<rparr>) = Inr (replicate 16 65 @ replicate 1739 0)"
proof -
  have z: "replicate 1739 (0::byte) = replicate 1738 0 @ replicate 1 0"
    by (simp only: replicate_add [symmetric]) simp
  have "to_bytes (zero_hero\<lparr>name := long_name\<rparr>) =
        Inr (replicate 16 65 @ replicate 1738 0 @ replicate 1 0)"
    using to_bytes_name_edited [OF from_bytes_zero_record latin1_encode_long_name]
    by (simp add: normalise_names_zero_record ljust_def)
      (simp add: zero_record_def CHR_SIZE_def)
  then show ?thesis by (simp add: latin1_encode_long_name z)
qed

text \<open>
  C5 (as amended). The length of \<open>unknown_tail\<close> is not checked: for every hero
  decoded from a record and given an unknown tail \<open>t\<close> of any length, \<open>to_bytes\<close>
  returns a buffer with \<open>t\<close> written verbatim at offset 1163. A tail of exactly 591
  bytes fills the record; a shorter tail is followed by the null bytes of the
  initialised buffer, a longer one makes the buffer grow to \<open>1163 + len(t)\<close> bytes.
\<close>

theorem unknown_tail_verbatim:
  assumes "from_bytes B = Inr h"
  shows "to_bytes (h\<lparr>unknown_tail := t\<rparr>) =
         Inr (take 1163 (normalise_names B) @ t @ replicate (591 - length t) 0)"
proof -
  have len: "1754 \<le> length B" using assms(1) by (rule from_bytes_length)
  have p: "portrait h = take 1024 (drop 139 B)" by (rule from_bytes_blobs(3) [OF assms(1)])
  have "take 1163 (normalise_names B) =
        take 1163 (take 139 (normalise_names B) @ take 1024 (drop 139 B) @ drop 1163 B)"
    using normalise_names_split [OF len] by simp
  also have "\<dots> = take 139 (normalise_names B) @ take 1024 (drop 139 B)"
    using len normalise_names_props(1) [of B] by simp
  finally have s: "take 1163 (normalise_names B) =
        take 139 (normalise_names B) @ take 1024 (drop 139 B)" .
  have "to_bytes (h\<lparr>portrait := portrait h, unknown_tail := t\<rparr>) =
        Inr (take 139 (normalise_names B) @ take 1024 (drop 139 B) @ t @ replicate (591 - length t) 0)"
    unfolding to_bytes_blobs_edited [OF assms(1)] using len by (simp add: p)
  then show ?thesis by (simp add: s)
qed

theorem unknown_tail_verbatim_witness:
  "from_bytes zero_record = Inr zero_hero \<and>
   to_bytes (zero_hero\<lparr>unknown_tail := [1, 2, 3]\<rparr>) =
     Inr (take 1163 (normalise_names zero_record) @ [1, 2, 3] @
          replicate (591 - length [1, 2, 3 :: byte]) 0)"
  using unknown_tail_verbatim [OF from_bytes_zero_record, of "[1, 2, 3]"] from_bytes_zero_record
  by simp

text \<open>
  The claim as stated (a \<open>FieldOverflow\<close> error when the tail is not 591 bytes long)
  fails for the hero decoded from the all-zero record and given the empty tail:
  \<open>to_bytes\<close> returns the all-zero record.
\<close>

theorem unknown_tail_rejection_counterexample:
  "length ([] :: bytes) \<noteq> 591 \<and> to_bytes (zero_hero\<lparr>unknown_tail := []\<rparr>) = Inr zero_record"
proof -
  have "to_bytes (zero_hero\<lparr>portrait := portrait zero_hero, unknown_tail := []\<rparr>) =
        Inr (replicate 139 0 @ replicate 1024 0 @ replicate 591 0)"
    unfolding to_bytes_zero_hero_blobs by (simp add: zero_hero_blobs)
  then show ?thesis by (simp add: zero_record_parts)
qed

text \<open>
  C6. Truncation detection: \<open>from_bytes\<close> raises on every buffer shorter than 1754
  bytes (its explicit \<open>ValueError\<close>, the \<open>TruncatedRecord\<close> failure), and \<open>from_file\<close>
  raises on every file shorter than 20 bytes (the \<open>struct.error\<close> of reading
  \<open>chr_offset\<close> at offset 16, the \<open>TruncatedHeader\<close> failure).
\<close>

theorem truncation_detected:
  "(length B < 1754 \<longrightarrow> from_bytes B = Inl ValueError) \<and>
   (length F < 20 \<longrightarrow> from_file F = Inl StructError)"
  by (simp add: from_bytes_def CHR_SIZE_def from_file_short)

theorem truncation_detected_witness:
  "length (replicate 1000 (0 :: byte)) < 1754 \<and>
   from_bytes (replicate 1000 0) = Inl ValueError \<and>
   length (replicate 10 (0 :: byte)) < 20 \<and>
   from_file (replicate 10 0) = Inl StructError"
  using truncation_detected [of "replicate 1000 0" "replicate 10 0"] by simp

text \<open>
  C7 (as amended). \<open>from_file\<close> does not check \<open>chr_offset\<close> against the file. For
  a file of at least 20 bytes: when \<open>chr_offset\<close> is greater than the file length the
  decode succeeds with no heroes and with every byte from offset 20 as
  \<open>pre_hero_data\<close>; when \<open>chr_offset\<close> is in 0..19 it succeeds with an empty
  \<open>pre_hero_data\<close> and \<open>(len - chr_offset) div 1754\<close> heroes; and the only failure
  there is, for any offset, is the \<open>ValueError\<close> of a hero window that is too short,
  which needs a negative \<open>chr_offset\<close>.
\<close>

theorem offset_unchecked:
  assumes "20 \<le> length data"
  shows "(int (length data) < unpack_i data 16 \<longrightarrow>
            from_file data =
              Inr \<lparr>version_header = take 16 data, chr_offset = unpack_i data 16,
                   metadata = take 10 (drop 20 data), pre_hero_data = drop 20 data,
                   heroes = []\<rparr>) \<and>
         (0 \<le> unpack_i data 16 \<and> unpack_i data 16 < 20 \<longrightarrow>
            (\<exists>sg. from_file data = Inr sg \<and> chr_offset sg = unpack_i data 16 \<and>
                  pre_hero_data sg = [] \<and>
                  int (length (heroes sg)) = (int (length data) - unpack_i data 16) div 1754)) \<and>
         (\<forall>e. from_file data = Inl e \<longrightarrow> unpack_i data 16 < 0 \<and> e = ValueError)"
proof (intro conjI impI allI)
  assume a: "int (length data) < unpack_i data 16"
  then have "(int (length data) - unpack_i data 16) div 1754 < 0"
    by (simp add: div_neg_pos_less0)
  then have n: "nat ((int (length data) - unpack_i data 16) div 1754) = 0" by simp
  have p: "py_slice data 20 (unpack_i data 16) = drop 20 data"
    using a assms by (simp add: py_slice_def slice_index_def Let_def)
  show "from_file data =
          Inr \<lparr>version_header = take 16 data, chr_offset = unpack_i data 16,
               metadata = take 10 (drop 20 data), pre_hero_data = drop 20 data,
               heroes = []\<rparr>"
    using a assms by (subst from_file_nonneg) (simp_all add: n p)
next
  assume b: "0 \<le> unpack_i data 16 \<and> unpack_i data 16 < 20"
  have "nat (unpack_i data 16) \<le> 20" using b by linarith
  then have p: "py_slice data 20 (unpack_i data 16) = []"
    using b assms by (simp add: py_slice_def slice_index_def Let_def min_def)
  have "0 \<le> (int (length data) - unpack_i data 16) div 1754"
    using b assms by (simp add: pos_imp_zdiv_nonneg_iff)
  then show "\<exists>sg. from_file data = Inr sg \<and> chr_offset sg = unpack_i data 16 \<and>
                  pre_hero_data sg = [] \<and>
                  int (length (heroes sg)) = (int (length data) - unpack_i data 16) div 1754"
    using b assms by (subst from_file_nonneg) (simp_all add: p)
next
  fix e
  assume f: "from_file data = Inl e"
  show "unpack_i data 16 < 0"
  proof (rule ccontr)
    assume "\<not> unpack_i data 16 < 0"
    then have "0 \<le> unpack_i data 16" by simp
    from from_file_nonneg [OF assms this] f show False by simp
  qed
  from f obtain "is" where "read_heroes data (unpack_i data 16) is [] = Inl e"
    unfolding from_file_unfold [OF assms] by (auto split: sum.splits)
  then show "e = ValueError" using read_heroes_Inl by blast
qed

theorem offset_unchecked_witness:
  "20 \<le> length far_offset_file \<and>
   int (length far_offset_file) < unpack_i far_offset_file 16 \<and>
   from_file far_offset_file =
     Inr \<lparr>version_header = take 16 far_offset_file,
          chr_offset = unpack_i far_offset_file 16,
          metadata = take 10 (drop 20 far_offset_file),
          pre_hero_data = drop 20 far_offset_file, heroes = []\<rparr> \<and>
   20 \<le> length zero_offset_file \<and>
   0 \<le> unpack_i zero_offset_file 16 \<and> unpack_i zero_offset_file 16 < 20 \<and>
   (\<exists>sg. from_file zero_offset_file = Inr sg \<and>
         chr_offset sg = unpack_i zero_offset_file 16 \<and> pre_hero_data sg = [] \<and>
         int (length (heroes sg)) =
           (int (length zero_offset_file) - unpack_i zero_offset_file 16) div 1754) \<and>
   20 \<le> length negative_offset_file \<and>
   from_file negative_offset_file = Inl ValueError \<and>
   unpack_i negative_offset_file 16 < 0"
proof -
  have a: "20 \<le> length far_offset_file" by (simp add: file_lengths)
  have a': "int (length far_offset_file) < unpack_i far_offset_file 16"
    by (simp add: file_lengths offsets)
  have b: "20 \<le> length zero_offset_file" by (simp add: file_lengths)
  have b': "0 \<le> unpack_i zero_offset_file 16 \<and> unpack_i zero_offset_file 16 < 20"
    by (simp add: offsets)
  have c: "20 \<le> length negative_offset_file" by (simp add: file_lengths)
  show ?thesis
    using offset_unchecked [OF a] offset_unchecked [OF b] offset_unchecked [OF c]
      a a' b b' c from_file_negative_offset
    by blast
qed

text \<open>
  The claim as stated (an \<open>InvalidOffset\<close> failure) fails for the file of 20 null
  bytes, whose \<open>chr_offset\<close> is 0: \<open>from_file\<close> returns a save game.
\<close>

theorem offset_check_counterexample:
  "20 \<le> length zero_offset_file \<and> unpack_i zero_offset_file 16 < 20 \<and>
   from_file zero_offset_file =
     Inr \<lparr>version_header = replicate 16 0, chr_offset = 0, metadata = [],
          pre_hero_data = [], heroes = []\<rparr>"
  by (simp add: file_lengths offsets from_file_zero_offset)

text \<open>
  C8 (as amended). Field isolation: for every 1754-byte record \<open>B\<close> whose two name
  fields have only null bytes after their first null byte, and every \<open>e\<close> in the signed
  32-bit range, decoding \<open>B\<close>, setting \<open>exp\<close> to \<open>e\<close> and re-encoding gives \<open>B\<close> with
  bytes 40 to 43 replaced by the little-endian encoding of \<open>e\<close>: every other byte is
  the byte of \<open>B\<close>.
\<close>

theorem exp_field_isolation:
  assumes "length B = 1754"
    and "null_padded (take 16 B)" "null_padded (take 16 (drop 16 B))"
    and "- 2147483648 \<le> e" "e \<le> 2147483647"
  shows "edit_exp B e = Inr (take 40 B @ le_bytes 4 e @ drop 44 B)"
proof -
  obtain h where h: "from_bytes B = Inr h"
    using assms(1) by (simp add: from_bytes_def CHR_SIZE_def)
  define X where "X = write_at 40 (le_bytes 4 e) B"
  have X: "X = take 40 B @ le_bytes 4 e @ drop 44 B" by (simp add: X_def write_at_def)
  have lX: "32 \<le> length X" using assms(1) by (simp add: X)
  have t1: "take 16 X = take 16 B" using assms(1) by (simp add: X)
  have t2: "take 16 (drop 16 X) = take 16 (drop 16 B)"
    using assms(1) by (simp add: X drop_take)
  have "normalise_names X = X"
    by (rule normalise_names_id [OF lX]) (simp_all add: t1 t2 assms)
  then show ?thesis
    using to_bytes_exp_edited [OF h assms(4,5)] by (simp add: edit_exp_def h X_def [symmetric] X)
qed

theorem exp_field_isolation_witness:
  "length zero_record = 1754 \<and> null_padded (take 16 zero_record) \<and>
   null_padded (take 16 (drop 16 zero_record)) \<and>
   - 2147483648 \<le> (5 :: int) \<and> (5 :: int) \<le> 2147483647 \<and>
   edit_exp zero_record 5 = Inr (take 40 zero_record @ le_bytes 4 5 @ drop 44 zero_record)"
  using exp_field_isolation [of zero_record 5]
  by (simp add: zero_record_def CHR_SIZE_def)

text \<open>
  Without the condition on the name fields a byte outside 40 to 43 changes: for
  \<open>stale_name_record\<close>, byte 1 is 1 in the record and 0 in the re-encoded buffer.
\<close>

theorem exp_field_isolation_counterexample:
  "length stale_name_record = 1754 \<and>
   edit_exp stale_name_record 5 = Inr (replicate 40 0 @ [5, 0, 0, 0] @ replicate 1710 0) \<and>
   stale_name_record ! 1 = 1 \<and>
   (replicate 40 0 @ [5, 0, 0, 0] @ replicate 1710 (0 :: byte)) ! 1 = 0"
proof -
  have l: "1754 \<le> length stale_name_record" by (simp add: stale_name_record_def)
  obtain h where h: "from_bytes stale_name_record = Inr h"
    using from_bytes_projr [OF l] by blast
  define X where "X = write_at 40 (le_bytes 4 5) stale_name_record"
  have X: "X = take 40 stale_name_record @ [5, 0, 0, 0] @ drop 44 stale_name_record"
    by (simp add: X_def write_at_def le_bytes_4_5)
  have t1: "take 16 X = 0 # 1 # replicate 14 0"
    by (simp add: X stale_name_record_def)
  have t2: "take 16 (drop 16 X) = replicate 16 0"
    by (simp add: X stale_name_record_def)
  have d: "drop 32 X = replicate 8 0 @ [5, 0, 0, 0] @ replicate 1710 0"
    by (simp add: X stale_name_record_def)
  have p1: "pad_name (0 # 1 # replicate 14 0) = replicate 16 0"
    by (simp add: pad_name_def split_first_def ljust_def)
  have p2: "pad_name (replicate 16 0) = replicate 16 0"
    by (simp add: pad_name_def split_first_def ljust_def)
  have r: "replicate 40 (0::byte) = replicate 16 0 @ replicate 16 0 @ replicate 8 0"
    by (simp add: replicate_add [symmetric])
  have "normalise_names X = replicate 40 0 @ [5, 0, 0, 0] @ replicate 1710 0"
    by (simp add: normalise_names_def t1 t2 d p1 p2 r)
  moreover have "to_bytes (h\<lparr>exp := 5\<rparr>) = Inr (normalise_names X)"
    unfolding X_def by (rule to_bytes_exp_edited [OF h]) simp_all
  ultimately show ?thesis
    by (simp add: edit_exp_def h nth_append) (simp add: stale_name_record_def)
qed

text \<open>
  C9 (as amended). Trailing remainder: for every file of at least 20 bytes with
  \<open>20 \<le> chr_offset \<le> len\<close>, \<open>from_file\<close> succeeds and decodes exactly
  \<open>n = (len - chr_offset) div 1754\<close> heroes, from the successive 1754-byte windows
  starting at \<open>chr_offset\<close>, in file order. The bytes after the last full record (from
  offset \<open>m = chr_offset + n * 1754\<close>, that is \<open>len - (len - chr_offset) mod 1754\<close>)
  do not reach the header, the offset, \<open>pre_hero_data\<close> or the heroes: the file cut at
  \<open>m\<close> decodes to the same save game up to \<open>metadata\<close>, and to the very same save
  game when \<open>m \<ge> 30\<close>. \<open>save_to_file\<close> succeeds on the decoded save game and writes
  \<open>m\<close> bytes, the same bytes as for the file cut at \<open>m\<close>, so the remainder is absent
  from its output.
\<close>

theorem trailing_remainder:
  assumes l20: "20 \<le> length data" and c: "c = unpack_i data 16"
    and c20: "20 \<le> c" and cle: "c \<le> int (length data)"
    and n: "n = nat ((int (length data) - c) div 1754)" and m: "m = nat c + n * 1754"
  shows "\<exists>sg sg' out.
      from_file data = Inr sg \<and>
      map Inr (heroes sg) =
        map (\<lambda>i. from_bytes (take 1754 (drop (nat c + i * 1754) data))) [0..<n] \<and>
      int m = int (length data) - (int (length data) - c) mod 1754 \<and>
      from_file (take m data) = Inr sg' \<and>
      sg' = sg\<lparr>metadata := take 10 (drop 20 (take m data))\<rparr> \<and>
      (30 \<le> m \<longrightarrow> sg' = sg) \<and>
      save_to_file sg = Inr out \<and> save_to_file sg' = Inr out \<and> length out = m"
proof -
  define W where "W = (\<lambda>i. take 1754 (drop (nat c + i * 1754) data))"
  define hs where "hs = map (\<lambda>i. projr (from_bytes (W i))) [0..<n]"
  define pre where "pre = take (nat c - 20) (drop 20 data)"
  define sg where "sg = \<lparr>version_header = take 16 data, chr_offset = c,
      metadata = take 10 (drop 20 data), pre_hero_data = pre, heroes = hs\<rparr>"
  define sg' where "sg' = sg\<lparr>metadata := take 10 (drop 20 (take m data))\<rparr>"
  have c0: "0 \<le> c" using c20 by simp
  have q0: "0 \<le> (int (length data) - c) div 1754"
    using cle by (simp add: pos_imp_zdiv_nonneg_iff)
  have full: "nat c + (i + 1) * 1754 \<le> length data" if "i < n" for i
    using that windows_full [OF c0, of i data] by (simp add: n)
  have mle: "m \<le> length data"
  proof (cases n)
    case 0
    then show ?thesis using cle c0 by (simp add: m)
  next
    case (Suc k)
    then show ?thesis using full [of k] by (simp add: m)
  qed
  have m20: "20 \<le> m" using c20 by (simp add: m)
  have cm: "nat c \<le> m" by (simp add: m)
  have mrem: "int m = int (length data) - (int (length data) - c) mod 1754"
  proof -
    have "int n = (int (length data) - c) div 1754" using q0 by (simp add: n)
    then have "int m = c + (int (length data) - c) div 1754 * 1754"
      using c0 by (simp add: m)
    then show ?thesis
      using div_mult_mod_eq [of "int (length data) - c" 1754] by linarith
  qed
  have lW: "length (W i) = 1754" if "i < n" for i
    using full [OF that] by (simp add: W_def)
  have dW: "from_bytes (W i) = Inr (projr (from_bytes (W i)))" if "i < n" for i
    using lW [OF that] by (intro from_bytes_projr) simp
  have pre: "py_slice data 20 c = pre"
    using py_slice_nat [of data 20 "nat c"] c0 by (simp add: pre_def)
  have f1: "from_file data = Inr sg"
    using from_file_nonneg [OF l20] c0
    by (simp add: c [symmetric] n [symmetric] pre sg_def hs_def W_def)
  have "map Inr hs = map (\<lambda>i. from_bytes (W i)) [0..<n]"
    unfolding hs_def map_map by (rule map_cong [OF refl]) (simp add: dW [symmetric])
  then have hero_list: "map Inr (heroes sg) = map (\<lambda>i. from_bytes (W i)) [0..<n]"
    by (simp add: sg_def)
  \<comment> \<open>the file cut after its last complete record\<close>
  define data' where "data' = take m data"
  have l': "length data' = m" using mle by (simp add: data'_def)
  have c': "unpack_i data' 16 = c"
    using m20 by (simp add: unpack_i_def data'_def drop_take c)
  have n': "nat ((int (length data') - unpack_i data' 16) div 1754) = n"
    using c0 by (simp add: l' c' m)
  have W': "take 1754 (drop (nat c + i * 1754) data') = W i" if "i < n" for i
  proof -
    have "i + 1 \<le> n" using that by simp
    then have "(i + 1) * 1754 \<le> n * 1754" by (simp only: mult_le_mono1)
    then have "1754 \<le> m - (nat c + i * 1754)" by (simp add: m)
    then show ?thesis by (simp add: data'_def drop_take W_def min_def)
  qed
  have pre': "py_slice data' 20 c = pre"
    using py_slice_nat [of data' 20 "nat c"] c0 cm
    by (simp add: pre_def data'_def drop_take min_def)
  have hs': "map (\<lambda>i. projr (from_bytes (take 1754 (drop (nat c + i * 1754) data')))) [0..<n] = hs"
    unfolding hs_def by (rule map_cong [OF refl]) (simp add: W')
  have f2: "from_file data' = Inr sg'"
  proof -
    have a: "20 \<le> length data'" using m20 l' by simp
    have b: "0 \<le> unpack_i data' 16" using c0 c' by simp
    have n'': "nat ((int (length data') - c) div 1754) = n" using n' by (simp only: c')
    have vh: "take 16 data' = take 16 data" using m20 by (simp add: data'_def)
    have "from_file data' =
          Inr \<lparr>version_header = take 16 data', chr_offset = c,
               metadata = take 10 (drop 20 data'), pre_hero_data = pre, heroes = hs\<rparr>"
      using from_file_nonneg [OF a b] by (simp only: c' n'' pre' hs')
    then have "from_file data' =
          Inr \<lparr>version_header = take 16 data, chr_offset = c,
               metadata = take 10 (drop 20 data'), pre_hero_data = pre, heroes = hs\<rparr>"
      by (simp only: vh)
    then show ?thesis by (simp add: sg'_def sg_def data'_def [symmetric])
  qed
  have same: "sg' = sg" if "30 \<le> m"
    using that by (simp add: sg'_def sg_def drop_take min_def)
  \<comment> \<open>writing the decoded file back\<close>
  have pk: "pack_i c = Inr (take 4 (drop 16 data))"
    unfolding c using l20 by (intro pack_i_unpack_i) simp
  have "\<exists>w. length w = 1754 \<and> from_bytes w = Inr h" if "h \<in> set hs" for h
  proof -
    from that obtain i where i: "i < n" "h = projr (from_bytes (W i))"
      by (auto simp: hs_def)
    show ?thesis using lW [OF i(1)] dW [OF i(1)] i(2) by blast
  qed
  then have "\<forall>h\<in>set hs. \<exists>w. length w = 1754 \<and> from_bytes w = Inr h" by blast
  from write_heroes_decoded [OF this, of "take 16 data @ take 4 (drop 16 data) @ pre"]
  obtain out where out:
    "write_heroes hs (take 16 data @ take 4 (drop 16 data) @ pre) =
       Inr ((take 16 data @ take 4 (drop 16 data) @ pre) @ out)"
    "length out = 1754 * length hs" by blast
  define res where "res = (take 16 data @ take 4 (drop 16 data) @ pre) @ out"
  have s1: "save_to_file sg = Inr res"
    by (simp add: save_to_file_def sg_def pk out(1) res_def)
  have s2: "save_to_file sg' = Inr res"
    by (simp add: save_to_file_def sg'_def sg_def pk out(1) res_def)
  have lres: "length res = m"
    using l20 c20 cle by (simp add: res_def out(2) hs_def pre_def m)
  have f2': "from_file (take m data) = Inr sg'" using f2 by (simp only: data'_def)
  have hero_list': "map Inr (heroes sg) =
      map (\<lambda>i. from_bytes (take 1754 (drop (nat c + i * 1754) data))) [0..<n]"
    using hero_list by (simp only: W_def)
  have sg'': "sg' = sg\<lparr>metadata := take 10 (drop 20 (take m data))\<rparr>" by (rule sg'_def)
  have same': "30 \<le> m \<longrightarrow> sg' = sg" using same by blast
  from f1 hero_list' mrem f2' sg'' same' s1 s2 lres show ?thesis
    by (intro exI [of _ sg] exI [of _ sg'] exI [of _ res] conjI)
qed

theorem trailing_remainder_witness:
  "20 \<le> length hero_file \<and> (30 :: int) = unpack_i hero_file 16 \<and> (20 :: int) \<le> 30 \<and>
   (30 :: int) \<le> int (length hero_file) \<and>
   (1 :: nat) = nat ((int (length hero_file) - 30) div 1754) \<and>
   (1784 :: nat) = nat 30 + 1 * 1754 \<and>
   (\<exists>sg out.
      from_file hero_file = Inr sg \<and>
      map Inr (heroes sg) =
        map (\<lambda>i. from_bytes (take 1754 (drop (nat 30 + i * 1754) hero_file))) [0..<1] \<and>
      int 1784 = int (length hero_file) - (int (length hero_file) - 30) mod 1754 \<and>
      from_file (take 1784 hero_file) = Inr sg \<and>
      save_to_file sg = Inr out \<and> length out = 1784)"
proof -
  have h1: "20 \<le> length hero_file" by (simp add: file_lengths)
  have h2: "(30 :: int) = unpack_i hero_file 16" by (simp add: offsets)
  have h3: "(20 :: int) \<le> 30" by simp
  have h4: "(30 :: int) \<le> int (length hero_file)" by (simp add: file_lengths)
  have h5: "(1 :: nat) = nat ((int (length hero_file) - 30) div 1754)"
    by (simp add: file_lengths)
  have h6: "(1784 :: nat) = nat 30 + 1 * 1754" by simp
  from trailing_remainder [OF h1 h2 h3 h4 h5 h6]
  obtain sg sg' out where r: "from_file hero_file = Inr sg"
    "map Inr (heroes sg) =
        map (\<lambda>i. from_bytes (take 1754 (drop (nat 30 + i * 1754) hero_file))) [0..<1]"
    "int 1784 = int (length hero_file) - (int (length hero_file) - 30) mod 1754"
    "from_file (take 1784 hero_file) = Inr sg'"
    "30 \<le> (1784 :: nat) \<longrightarrow> sg' = sg"
    "save_to_file sg = Inr out" "length out = 1784"
    by blast
  have e: "sg' = sg" using r(5) by simp
  from h1 h2 h3 h4 h5 h6 r(1,2,3) r(4) [unfolded e] r(6,7) show ?thesis
    by (intro conjI exI [of _ sg] exI [of _ out])
qed

text \<open>
  The remainder can reach \<open>metadata\<close>, which is always \<open>data[20:30]\<close>: in the
  25-byte file \<open>remainder_file\<close> the hero area starts at 20 and holds no full record,
  the remainder is the five bytes 1 to 5, and the decoded \<open>metadata\<close> is these bytes.
\<close>

theorem trailing_remainder_counterexample:
  "20 \<le> length remainder_file \<and> 20 \<le> unpack_i remainder_file 16 \<and>
   unpack_i remainder_file 16 \<le> int (length remainder_file) \<and>
   (int (length remainder_file) - unpack_i remainder_file 16) mod 1754 = 5 \<and>
   drop 20 remainder_file = [1, 2, 3, 4, 5] \<and>
   from_file remainder_file =
     Inr \<lparr>version_header = replicate 16 0, chr_offset = 20, metadata = [1, 2, 3, 4, 5],
          pre_hero_data = [], heroes = []\<rparr>"
  by (simp add: file_lengths offsets from_file_remainder) (simp add: remainder_file_def)

text \<open>
  C10. Decode totality and length invariants: on every buffer of at least 1754 bytes
  \<open>from_bytes\<close> returns a hero, whose portrait has 1024 bytes and whose unknown tail
  has \<open>len - 1163\<close> bytes; and every hero of a save game that \<open>from_file\<close> returns has
  a portrait of 1024 bytes and an unknown tail of exactly 591 bytes.
\<close>

theorem decode_total:
  "(1754 \<le> length B \<longrightarrow>
      (\<exists>h. from_bytes B = Inr h \<and> length (portrait h) = 1024 \<and>
           length (unknown_tail h) = length B - 1163)) \<and>
   (from_file data = Inr sg \<longrightarrow>
      (\<forall>h\<in>set (heroes sg). length (portrait h) = 1024 \<and> length (unknown_tail h) = 591))"
proof -
  have a: "\<exists>h. from_bytes B = Inr h \<and> length (portrait h) = 1024 \<and>
           length (unknown_tail h) = length B - 1163" if l: "1754 \<le> length B"
  proof -
    obtain h where h: "from_bytes B = Inr h" using from_bytes_projr [OF l] by blast
    show ?thesis using h l from_bytes_blobs(3,4) [OF h] by simp
  qed
  have b: "length (portrait h) = 1024 \<and> length (unknown_tail h) = 591"
    if f: "from_file data = Inr sg" and hin: "h \<in> set (heroes sg)" for h
  proof -
    have l20: "20 \<le> length data"
    proof (rule ccontr)
      assume "\<not> 20 \<le> length data"
      then have "from_file data = Inl StructError" by (intro from_file_short) simp
      then show False using f by simp
    qed
    from f obtain hs where r: "read_heroes data (unpack_i data 16)
        (py_range ((int (length data) - unpack_i data 16) div 1754)) [] = Inr hs"
      and sg: "heroes sg = hs"
      unfolding from_file_unfold [OF l20] by (auto split: sum.splits)
    from read_heroes_sound [OF r] hin sg
    obtain i where w: "from_bytes (window data (unpack_i data 16) i) = Inr h" by auto
    have "1754 \<le> length (window data (unpack_i data 16) i)" by (rule from_bytes_length [OF w])
    then have lw: "length (window data (unpack_i data 16) i) = 1754"
      using length_window_le [of data "unpack_i data 16" i] by simp
    show ?thesis using from_bytes_blobs(3,4) [OF w] lw by simp
  qed
  show ?thesis using a b by blast
qed

theorem decode_total_witness:
  "1754 \<le> length zero_record \<and>
   (\<exists>h. from_bytes zero_record = Inr h \<and> length (portrait h) = 1024 \<and>
        length (unknown_tail h) = length zero_record - 1163) \<and>
   from_file hero_file = Inr hero_file_game \<and>
   heroes hero_file_game = [zero_hero] \<and>
   length (portrait zero_hero) = 1024 \<and> length (unknown_tail zero_hero) = 591"
proof -
  have l: "1754 \<le> length zero_record" by (simp add: zero_record_def CHR_SIZE_def)
  have h: "heroes hero_file_game = [zero_hero]" by (simp add: hero_file_game_def)
  show ?thesis
    using decode_total [of zero_record hero_file hero_file_game] l from_file_hero_file h
    by simp
qed

end
